theory Spec2Isabelle
  imports Complex_Main
begin

section \<open>Tensors\<close>

text \<open>
  A numpy array is modelled by its shape and by the value it holds at every index tuple.
  Only the values at index tuples inside the shape are meaningful. The exceptions that
  Python and numpy raise are values of \<open>error\<close>.
\<close>

datatype error = AssertionError | ZeroDivisionError | ValueError | IndexError | StopIteration

record 'a tensor =
  shape :: "nat list"
  entry :: "nat list \<Rightarrow> 'a"

definition ndim :: "'a tensor \<Rightarrow> nat" where
  "ndim t = length (shape t)"

text \<open>All index tuples of a shape, in row-major order.\<close>

fun indices :: "nat list \<Rightarrow> nat list list" where
  "indices [] = [[]]"
| "indices (d # ds) = concat (map (\<lambda>i. map ((#) i) (indices ds)) [0..<d])"

text \<open>\<open>np.array_equal\<close>: the same shape and the same value at every index of that shape.\<close>

definition tensor_eq :: "'a tensor \<Rightarrow> 'a tensor \<Rightarrow> bool" where
  "tensor_eq a b = (shape a = shape b \<and> list_all (\<lambda>idx. entry a idx = entry b idx) (indices (shape a)))"

text \<open>\<open>np.zeros(shape)\<close>.\<close>

definition zeros :: "nat list \<Rightarrow> 'a::zero tensor" where
  "zeros sh = \<lparr>shape = sh, entry = (\<lambda>idx. 0)\<rparr>"

text \<open>Position in row-major order of an index tuple; \<open>np.arange(n).reshape(sh)\<close> holds it.\<close>

definition flat_index :: "nat list \<Rightarrow> nat list \<Rightarrow> nat" where
  "flat_index sh idx = foldl (\<lambda>acc (d, i). acc * d + i) 0 (zip sh idx)"

definition arange :: "int \<Rightarrow> nat list \<Rightarrow> int tensor" where
  "arange start sh = \<lparr>shape = sh, entry = (\<lambda>idx. start + int (flat_index sh idx))\<rparr>"

subsection \<open>Transposition\<close>

text \<open>Position of the first occurrence of a value in a list.\<close>

fun pos_of :: "'a \<Rightarrow> 'a list \<Rightarrow> nat" where
  "pos_of a [] = 0"
| "pos_of a (x # xs) = (if x = a then 0 else Suc (pos_of a xs))"

text \<open>
  Axis \<open>k\<close> of the result is axis \<open>p ! k\<close> of the argument: the result's entry at \<open>idx\<close>
  is the argument's entry at the index that has \<open>idx ! k\<close> on axis \<open>p ! k\<close>.
\<close>

definition permute_axes :: "'a tensor \<Rightarrow> nat list \<Rightarrow> 'a tensor" where
  "permute_axes t p =
     \<lparr>shape = map (\<lambda>k. shape t ! k) p,
      entry = (\<lambda>idx. entry t (map (\<lambda>a. idx ! pos_of a p) [0..<length p]))\<rparr>"

text \<open>
  \<open>np.transpose(array, order)\<close>: the order has one entry per axis, each entry lies in
  \<open>-ndim..ndim-1\<close> (a negative one counts from the end) and no axis is repeated;
  otherwise numpy raises ValueError.
\<close>

definition transpose_t :: "'a tensor \<Rightarrow> int list \<Rightarrow> error + 'a tensor" where
  "transpose_t t order =
     (let n = ndim t in
      if length order \<noteq> n then Inl ValueError
      else if list_ex (\<lambda>a. a < - int n \<or> int n \<le> a) order then Inl ValueError
      else let p = map (\<lambda>a. nat (if a < 0 then a + int n else a)) order in
           if \<not> distinct p then Inl ValueError
           else Inr (permute_axes t p))"

section \<open>Axis layout (_tools.py)\<close>

text \<open>
  \<open>global_to_local(array, sites)\<close>. The number of sites is a count, a natural number;
  \<open>array.ndim % sites\<close> raises ZeroDivisionError for no sites.
\<close>

definition global_to_local :: "'a tensor \<Rightarrow> nat \<Rightarrow> error + 'a tensor" where
  "global_to_local array sites =
     (if sites = 0 then Inl ZeroDivisionError
      else if ndim array mod sites \<noteq> 0 then Inl AssertionError
      else let plegs = ndim array div sites;
               order = map (\<lambda>i. i div plegs + sites * (i mod plegs)) [0..<plegs * sites]
           in transpose_t array (map int order))"

text \<open>
  \<open>local_to_global(array, sites, left_skip, right_skip)\<close>. The interior axis count
  \<open>array.ndim - skip\<close> is a Python integer and may be negative; \<open>%\<close> and \<open>//\<close> round
  towards minus infinity, as \<open>mod\<close> and \<open>div\<close> on \<open>int\<close> do, and \<open>range\<close> of a negative
  number is empty.
\<close>

definition local_to_global :: "'a tensor \<Rightarrow> nat \<Rightarrow> nat \<Rightarrow> nat \<Rightarrow> error + 'a tensor" where
  "local_to_global array sites left_skip right_skip =
     (let skip = left_skip + right_skip;
          nd = int (ndim array) - int skip
      in if sites = 0 then Inl ZeroDivisionError
         else if nd mod int sites \<noteq> 0 then Inl AssertionError
         else let plegs = nd div int sites;
                  order = concat (map (\<lambda>j. map (\<lambda>i. int left_skip + plegs * int i + int j)
                                                  [0..<sites]) [0..<nat plegs]);
                  order = map int [0..<left_skip] @ order
                          @ [int (ndim array) - int right_skip .. int (ndim array) - 1]
              in transpose_t array order)"

subsection \<open>Partial trace\<close>

definition drop_axis :: "nat \<Rightarrow> 'b list \<Rightarrow> 'b list" where
  "drop_axis i xs = take i xs @ drop (Suc i) xs"

definition insert_axis :: "nat \<Rightarrow> 'b \<Rightarrow> 'b list \<Rightarrow> 'b list" where
  "insert_axis i x xs = take i xs @ x # drop i xs"

text \<open>
  \<open>np.trace(array, axis1=.., axis2=..)\<close>: the sum along the diagonal of the two axes,
  which are removed from the shape. numpy raises ValueError for fewer than two axes, an
  axis out of range, or twice the same axis.
\<close>

definition np_trace :: "'a::comm_monoid_add tensor \<Rightarrow> nat \<Rightarrow> nat \<Rightarrow> error + 'a tensor" where
  "np_trace a axis1 axis2 =
     (let n = ndim a in
      if n < 2 \<or> n \<le> axis1 \<or> n \<le> axis2 \<or> axis1 = axis2 then Inl ValueError
      else let lo = min axis1 axis2; hi = max axis1 axis2;
               m = min (shape a ! axis1) (shape a ! axis2)
           in Inr \<lparr>shape = drop_axis lo (drop_axis hi (shape a)),
                   entry = (\<lambda>idx. sum_list (map (\<lambda>k. entry a (insert_axis hi k (insert_axis lo k idx)))
                                                [0..<m]))\<rparr>)"

text \<open>\<open>partial_trace(array, traceout)\<close>: the sites to trace out are positions, natural numbers.\<close>

function partial_trace :: "'a::comm_monoid_add tensor \<Rightarrow> nat list \<Rightarrow> error + 'a tensor" where
  "partial_trace array traceout =
     (if length traceout = 0 then Inr array
      else let sites = ndim array div 2; rem = ndim array mod 2 in
           if rem \<noteq> 0 then Inl AssertionError
           else (case np_trace array (last traceout) (last traceout + sites) of
                   Inl e \<Rightarrow> Inl e
                 | Inr array_red \<Rightarrow> partial_trace array_red (butlast traceout)))"
  by pat_completeness auto
termination
  by (relation "measure (\<lambda>(a, tr). length tr)") auto

declare partial_trace.simps [simp del]

subsection \<open>Block-diagonal sum\<close>

text \<open>\<open>axes += (axes < 0) * summands[0].ndim\<close>.\<close>

definition resolve_axes :: "nat \<Rightarrow> int list \<Rightarrow> int list" where
  "resolve_axes n axes = map (\<lambda>a. a + (if a < 0 then int n else 0)) axes"

text \<open>\<open>[array.transpose(axes_order) for array in summands]\<close>: the first failure is raised.\<close>

fun transpose_all :: "'a tensor list \<Rightarrow> int list \<Rightarrow> error + 'a tensor list" where
  "transpose_all [] order = Inr []"
| "transpose_all (array # rest) order =
     (case transpose_t array order of
        Inl e \<Rightarrow> Inl e
      | Inr array' \<Rightarrow>
          (case transpose_all rest order of Inl e \<Rightarrow> Inl e | Inr rest' \<Rightarrow> Inr (array' # rest')))"

text \<open>
  numpy's rule for adding \<open>src\<close> into a target of shape \<open>dst\<close> in place: aligned at the
  last axis, every extent of \<open>src\<close> is the target's extent or 1, and an axis of extent 1
  is read at 0.
\<close>

definition broadcastable :: "nat list \<Rightarrow> nat list \<Rightarrow> bool" where
  "broadcastable src dst =
     (length src \<le> length dst \<and>
      list_all2 (\<lambda>s d. s = d \<or> s = 1) src (drop (length dst - length src) dst))"

definition bcast_index :: "nat list \<Rightarrow> nat list \<Rightarrow> nat list" where
  "bcast_index src idx =
     map2 (\<lambda>s i. if s = 1 then 0 else i) src (drop (length idx - length src) idx)"

text \<open>
  \<open>res[pos] += array\<close>, where \<open>pos\<close> is the list of \<open>slice(start, end)\<close> over the leading
  axes. The bounds are numpy floats holding whole numbers, and the index is a list; the
  numpy of the docstring's example takes them as integer bounds and as a tuple of slices.
  A slice is clipped to the extent of its axis. A non-empty list of slices selects the
  hyper-rectangle; the empty list is an empty index array: it selects nothing along the
  first axis, so that \<open>res\<close> stays as it is, and numpy still raises ValueError when
  \<open>array\<close> cannot be broadcast to the (empty) selection.
\<close>

definition in_slices :: "nat list \<Rightarrow> nat list \<Rightarrow> nat list \<Rightarrow> bool" where
  "in_slices startpos endpos idx =
     list_all (\<lambda>(s, e, i). s \<le> i \<and> i < e) (zip startpos (zip endpos idx))"

definition add_block :: "'a::plus tensor \<Rightarrow> nat list \<Rightarrow> nat list \<Rightarrow> 'a tensor \<Rightarrow> error + 'a tensor" where
  "add_block res startpos endpos array =
     (let nr = length startpos in
      if ndim res < nr then Inl IndexError
      else if nr = 0 then
        (if ndim res = 0 then Inl IndexError
         else if broadcastable (shape array) (0 # tl (shape res)) then Inr res
         else Inl ValueError)
      else let region = map (\<lambda>(s, e, d). min e d - min s d) (zip startpos (zip endpos (shape res)))
                        @ drop nr (shape res)
           in if \<not> broadcastable (shape array) region then Inl ValueError
              else Inr (res\<lparr>entry := (\<lambda>idx.
                     if in_slices startpos endpos idx
                     then entry res idx
                          + entry array (bcast_index (shape array)
                                           (map2 (-) (take nr idx) startpos @ drop nr idx))
                     else entry res idx)\<rparr>))"

text \<open>The loop \<open>for array, shape in zip(summands, shapes)\<close>.\<close>

fun place_blocks :: "'a::plus tensor \<Rightarrow> nat list \<Rightarrow> 'a tensor list \<Rightarrow> error + 'a tensor" where
  "place_blocks res startpos [] = Inr res"
| "place_blocks res startpos (array # rest) =
     (let shape_a = take (length startpos) (shape array);
          endpos = map2 (+) startpos shape_a
      in case add_block res startpos endpos array of
           Inl e \<Rightarrow> Inl e
         | Inr res' \<Rightarrow> place_blocks res' endpos rest)"

text \<open>
  \<open>np.argsort\<close>: the positions in the order of their values (for values that are all
  different the sorting algorithm does not matter).
\<close>

definition argsort :: "int list \<Rightarrow> nat list" where
  "argsort xs = map snd (sort_key fst (zip xs [0..<length xs]))"

text \<open>
  \<open>block_diag(summands, axes)\<close>. \<open>summands[0]\<close> raises IndexError for no summands.
  All summands hold entries of one type.
\<close>

definition block_diag :: "'a::monoid_add tensor list \<Rightarrow> int list \<Rightarrow> error + 'a tensor" where
  "block_diag summands axes =
     (case summands of
        [] \<Rightarrow> Inl IndexError
      | first # _ \<Rightarrow>
          let axes = resolve_axes (ndim first) axes;
              nr_axes = length axes;
              axes_order = axes @ map int (filter (\<lambda>i. int i \<notin> set axes) [0..<ndim first])
          in (case transpose_all summands axes_order of
                Inl e \<Rightarrow> Inl e
              | Inr summands \<Rightarrow>
                  let shapes = map (\<lambda>array. take nr_axes (shape array)) summands;
                      res = zeros (foldr (map2 (+)) shapes (replicate nr_axes 0)
                                   @ drop nr_axes (shape (hd summands)))
                  in (case place_blocks res (replicate nr_axes 0) summands of
                        Inl e \<Rightarrow> Inl e
                      | Inr res \<Rightarrow> transpose_t res (map int (argsort axes_order)))))"

section \<open>Random sources and chain construction (factory.py)\<close>

text \<open>
  A random source (\<open>numpy.random.RandomState\<close>) is its sequence of standard-normal draws
  and the number of draws consumed so far. The state of a run is the source supplied by the
  caller (\<open>randstate\<close>, possibly \<open>None\<close>) together with numpy's module-level source
  \<open>np.random\<close>.
\<close>

record rng =
  draws :: "nat \<Rightarrow> real"
  consumed :: nat

type_synonym rstate = "rng option \<times> rng"

text \<open>\<open>source.randn(*shape)\<close>: one draw per entry, in row-major order.\<close>

definition randn :: "nat list \<Rightarrow> rng \<Rightarrow> real tensor \<times> rng" where
  "randn sh r =
     (\<lparr>shape = sh, entry = (\<lambda>idx. draws r (consumed r + flat_index sh idx))\<rparr>,
      r\<lparr>consumed := consumed r + prod_list sh\<rparr>)"

text \<open>
  \<open>_zrandn(shape, randstate)\<close>: the real parts are drawn first, then the imaginary parts,
  from \<open>randstate\<close>, or from \<open>np.random\<close> when \<open>randstate\<close> is \<open>None\<close>.
\<close>

definition zrandn :: "nat list \<Rightarrow> rstate \<Rightarrow> complex tensor \<times> rstate" where
  "zrandn sh st =
     (case st of
        (None, g) \<Rightarrow>
          (let (re, g1) = randn sh g; (im, g2) = randn sh g1
           in (\<lparr>shape = sh, entry = (\<lambda>idx. Complex (entry re idx) (entry im idx))\<rparr>, (None, g2)))
      | (Some r, g) \<Rightarrow>
          (let (re, r1) = randn sh r; (im, r2) = randn sh r1
           in (\<lparr>shape = sh, entry = (\<lambda>idx. Complex (entry re idx) (entry im idx))\<rparr>, (Some r2, g))))"

text \<open>
  \<open>_gue(dim, randstate)\<close>. The factorisation \<open>scipy.linalg.qr\<close> is a parameter. The call
  \<open>_zrandn((dim, dim))\<close> passes no source on, so \<open>_zrandn\<close> receives \<open>None\<close>. The
  product \<open>q * ph\<close> multiplies column \<open>j\<close> of \<open>q\<close> by \<open>ph[j]\<close>.
\<close>

definition diagonal :: "'a tensor \<Rightarrow> 'a tensor" where
  "diagonal r = \<lparr>shape = [min (shape r ! 0) (shape r ! 1)], entry = (\<lambda>idx. entry r [idx ! 0, idx ! 0])\<rparr>"

definition gue :: "(complex tensor \<Rightarrow> complex tensor \<times> complex tensor) \<Rightarrow> nat \<Rightarrow> rstate
                     \<Rightarrow> complex tensor \<times> rstate" where
  "gue qr dim' st =
     (let (randstate, g) = st;
          (z0, st1) = zrandn [dim', dim'] (None, g);
          z = z0\<lparr>entry := (\<lambda>idx. entry z0 idx / complex_of_real (sqrt 2))\<rparr>;
          (q, r) = qr z;
          d = diagonal r;
          ph = d\<lparr>entry := (\<lambda>idx. entry d idx / complex_of_real (cmod (entry d idx)))\<rparr>
      in (q\<lparr>entry := (\<lambda>idx. entry q idx * entry ph [idx ! 1])\<rparr>, (randstate, snd st1)))"

text \<open>
  The \<open>ldim\<close> argument of \<open>_generate\<close>: a scalar, an iterable of scalars, or an iterable
  of iterables.
\<close>

datatype ldim_spec = Scalar nat | Flat "nat list" | Nested "nat list list"

text \<open>Calling the generator function on a list of shapes in order, threading its state.\<close>

fun run_func :: "(nat list \<Rightarrow> 's \<Rightarrow> 't \<times> 's) \<Rightarrow> nat list list \<Rightarrow> 's \<Rightarrow> 't list \<times> 's" where
  "run_func func [] st = ([], st)"
| "run_func func (sh # shs) st =
     (let (t, st1) = func sh st; (ts, st2) = run_func func shs st1 in (t # ts, st2))"

text \<open>
  \<open>_generate(sites, ldim, bdim, func)\<close>. The generator function may consume randomness, so
  it takes and returns a state. Modelled from the spec: the chain type
  (\<open>mpnum.mparray.MPArray\<close>) is the ordered sequence of its local tensors.

  An empty \<open>ldim\<close> raises IndexError at \<open>ldim[0]\<close>. In the second branch \<open>zip\<close> stops at
  the shorter of \<open>range(sites - 2)\<close> and the remaining per-site entries, and the last
  \<open>next(ldim_iter)\<close> raises StopIteration when no entry is left.
\<close>

definition generate :: "nat \<Rightarrow> ldim_spec \<Rightarrow> nat \<Rightarrow> (nat list \<Rightarrow> 's \<Rightarrow> 't \<times> 's) \<Rightarrow> 's
                          \<Rightarrow> error + ('t list \<times> 's)" where
  "generate sites ldim bdim func st =
     (if \<not> 1 < sites then Inl AssertionError
      else let flat = (\<lambda>ldim.
                 let (ltens_l, st1) = func ([1] @ ldim @ [bdim]) st;
                     (ltenss, st2) = run_func func (replicate (sites - 2) ([bdim] @ ldim @ [bdim])) st1;
                     (ltens_r, st3) = func ([bdim] @ ldim @ [1]) st2
                 in Inr ([ltens_l] @ ltenss @ [ltens_r], st3))
           in case ldim of
                Scalar d \<Rightarrow> flat [d]
              | Flat ds \<Rightarrow> (if ds = [] then Inl IndexError else flat ds)
              | Nested lds \<Rightarrow>
                  (case lds of
                     [] \<Rightarrow> Inl IndexError
                   | ld0 # lds' \<Rightarrow>
                       let (ltens_l, st1) = func ([1] @ ld0 @ [bdim]) st;
                           (ltenss, st2) = run_func func
                               (map (\<lambda>ld. [bdim] @ ld @ [bdim]) (take (sites - 2) lds')) st1
                       in (case drop (sites - 2) lds' of
                             [] \<Rightarrow> Inl StopIteration
                           | ld # _ \<Rightarrow>
                               let (ltens_r, st3) = func ([bdim] @ ld @ [1]) st2
                               in Inr ([ltens_l] @ ltenss @ [ltens_r], st3))))"

definition random_mpa :: "nat \<Rightarrow> ldim_spec \<Rightarrow> nat \<Rightarrow> rstate \<Rightarrow> error + (complex tensor list \<times> rstate)" where
  "random_mpa sites ldim bdim st = generate sites ldim bdim zrandn st"

definition zero :: "nat \<Rightarrow> ldim_spec \<Rightarrow> nat \<Rightarrow> error + 'a::zero tensor list" where
  "zero sites ldim bdim =
     map_sum id fst (generate sites ldim bdim (\<lambda>sh st. (zeros sh, st)) ())"

text \<open>
  The tuple that \<open>_generate\<close> places between the two bond extents of the shape of site
  \<open>i\<close>: in its first branch the tuple \<open>ldim\<close> itself, \<open>(ldim, )\<close> for a scalar and the whole
  sequence for an iterable of scalars, at every site; in its second branch the entry of
  \<open>ldim\<close> that the iterator yields for site \<open>i\<close>.
\<close>

fun passed_legs :: "ldim_spec \<Rightarrow> nat \<Rightarrow> nat list" where
  "passed_legs (Scalar d) i = [d]"
| "passed_legs (Flat ds) i = ds"
| "passed_legs (Nested lds) i = lds ! i"

section \<open>Examples and notions used in the statements\<close>

text \<open>The axis maps of the two layout transforms, for \<open>plegs\<close> legs on each of \<open>sites\<close> sites.\<close>

definition to_local_axis :: "nat \<Rightarrow> nat \<Rightarrow> nat \<Rightarrow> nat" where
  "to_local_axis plegs sites i = i div plegs + sites * (i mod plegs)"

definition to_global_axis :: "nat \<Rightarrow> nat \<Rightarrow> nat \<Rightarrow> nat" where
  "to_global_axis plegs sites k = plegs * (k mod sites) + k div sites"

text \<open>The arrays of the docstrings: \<open>np.zeros((1, 2, 3, 4, 5, 6))\<close> and the same shape filled with 0..719.\<close>

definition doc_zeros :: "real tensor" where
  "doc_zeros = zeros [1, 2, 3, 4, 5, 6]"

definition doc_range :: "int tensor" where
  "doc_range = arange 0 [1, 2, 3, 4, 5, 6]"

text \<open>
  Modelled from the spec: the physical dimensions of a chain (\<open>MPArray.pdims\<close>, shown in the
  docstrings of \<open>random_mpa\<close>) are the shapes of its local tensors without the two bond axes.
\<close>

definition pdims :: "'a tensor list \<Rightarrow> nat list list" where
  "pdims chain = map (\<lambda>t. butlast (tl (shape t))) chain"

text \<open>
  The leg specifications in the words of the spec: a scalar, a flat sequence of length
  \<open>sites\<close>, or a sequence of \<open>sites\<close> per-site tuples; and the legs the spec gives site \<open>i\<close>:
  one leg of the scalar's size, one leg of the size of the flat sequence's entry \<open>i\<close>, or
  the per-site tuple \<open>i\<close>.
\<close>

fun valid_ldim :: "nat \<Rightarrow> ldim_spec \<Rightarrow> bool" where
  "valid_ldim sites (Scalar d) = True"
| "valid_ldim sites (Flat ds) = (length ds = sites)"
| "valid_ldim sites (Nested lds) = (length lds = sites)"

fun legs :: "ldim_spec \<Rightarrow> nat \<Rightarrow> nat list" where
  "legs (Scalar d) i = [d]"
| "legs (Flat ds) i = [ds ! i]"
| "legs (Nested lds) i = lds ! i"

text \<open>A generator function that returns a tensor of the shape it is asked for.\<close>

definition shape_honest :: "(nat list \<Rightarrow> 's \<Rightarrow> 'a tensor \<times> 's) \<Rightarrow> bool" where
  "shape_honest func = (\<forall>sh st. shape (fst (func sh st)) = sh)"

text \<open>Two sources with different draws, and a factorisation of matrices with one entry.\<close>

definition source_plus :: rng where
  "source_plus = \<lparr>draws = (\<lambda>k. 1), consumed = 0\<rparr>"

definition source_minus :: rng where
  "source_minus = \<lparr>draws = (\<lambda>k. - 1), consumed = 0\<rparr>"

definition qr_1x1 :: "(complex tensor \<Rightarrow> complex tensor \<times> complex tensor) \<Rightarrow> bool" where
  "qr_1x1 qr = (\<forall>z. shape z = [1, 1] \<longrightarrow>
      (let (q, r) = qr z in entry q [0, 0] * entry r [0, 0] = entry z [0, 0] \<and> cmod (entry q [0, 0]) = 1))"

definition qr_trivial :: "complex tensor \<Rightarrow> complex tensor \<times> complex tensor" where
  "qr_trivial z = (\<lparr>shape = shape z, entry = (\<lambda>idx. 1)\<rparr>, z)"

text \<open>
  The inputs on which \<open>_generate\<close> raises: fewer than two sites, an empty sequence, or fewer
  per-site entries than sites. A per-site sequence with more entries than sites is set apart.
\<close>

definition fails_early :: "nat \<Rightarrow> ldim_spec \<Rightarrow> bool" where
  "fails_early sites ldim =
     (sites < 2 \<or> (case ldim of Scalar d \<Rightarrow> False | Flat ds \<Rightarrow> ds = [] | Nested lds \<Rightarrow> length lds < sites))"

definition not_longer :: "nat \<Rightarrow> ldim_spec \<Rightarrow> bool" where
  "not_longer sites ldim = (case ldim of Nested lds \<Rightarrow> length lds \<le> sites | _ \<Rightarrow> True)"

text \<open>
  Notions for the block-diagonal sum: the listed axes as natural numbers, the order that
  brings them to the front, and what makes a list of axes usable (not empty, every axis in
  \<open>-n..n-1\<close>, no axis named twice).
\<close>

definition listed_axes :: "nat \<Rightarrow> int list \<Rightarrow> nat list" where
  "listed_axes n axes = map nat (resolve_axes n axes)"

definition front_order :: "nat \<Rightarrow> nat list \<Rightarrow> nat list" where
  "front_order n A = A @ filter (\<lambda>i. i \<notin> set A) [0..<n]"

definition valid_axes :: "nat \<Rightarrow> int list \<Rightarrow> bool" where
  "valid_axes n axes =
     (axes \<noteq> [] \<and> list_all (\<lambda>a. - int n \<le> a \<and> a < int n) axes \<and> distinct (resolve_axes n axes))"

text \<open>
  The summands of a block-diagonal sum have one rank. \<open>listed\<close> says whether an axis is among
  the (resolved) axes of the sum.
\<close>

definition same_rank :: "'a tensor list \<Rightarrow> bool" where
  "same_rank ss = (ss \<noteq> [] \<and> list_all (\<lambda>s. ndim s = ndim (hd ss)) ss)"

definition listed :: "nat \<Rightarrow> int list \<Rightarrow> nat \<Rightarrow> bool" where
  "listed n axes k = (int k \<in> set (resolve_axes n axes))"

text \<open>
  The precondition of \<open>block_diag\<close>: off the listed axes every summand has the extents of the
  first one. \<open>clash\<close> is what numpy's in-place addition refuses: a summand with an extent,
  off the listed axes, that is neither the first summand's nor 1.
\<close>

definition agree_elsewhere :: "'a tensor list \<Rightarrow> int list \<Rightarrow> bool" where
  "agree_elsewhere ss axes =
     list_all (\<lambda>s. list_all (\<lambda>k. listed (ndim (hd ss)) axes k \<or> shape s ! k = shape (hd ss) ! k)
                        [0..<ndim (hd ss)]) ss"

definition clash :: "'a tensor list \<Rightarrow> int list \<Rightarrow> bool" where
  "clash ss axes =
     list_ex (\<lambda>s. list_ex (\<lambda>k. \<not> listed (ndim (hd ss)) axes k
                               \<and> shape s ! k \<noteq> shape (hd ss) ! k \<and> shape s ! k \<noteq> 1)
                        [0..<ndim (hd ss)]) ss"

text \<open>
  An index tuple inside a shape; the offset of summand \<open>j\<close> on axis \<open>k\<close>, the sum of the
  extents of the summands before it on a listed axis and 0 on any other; and whether an
  index of the result lies in the block of summand \<open>j\<close>. \<open>contents\<close> lists the entries of
  a tensor in row-major order.
\<close>

definition index_ok :: "nat list \<Rightarrow> nat list \<Rightarrow> bool" where
  "index_ok sh idx = (length idx = length sh \<and> list_all2 (<) idx sh)"

definition block_offset :: "'a tensor list \<Rightarrow> int list \<Rightarrow> nat \<Rightarrow> nat \<Rightarrow> nat" where
  "block_offset ss axes j k =
     (if listed (ndim (hd ss)) axes k then sum_list (map (\<lambda>s. shape s ! k) (take j ss)) else 0)"

definition in_block :: "'a tensor list \<Rightarrow> int list \<Rightarrow> nat \<Rightarrow> nat list \<Rightarrow> bool" where
  "in_block ss axes j idx =
     list_all (\<lambda>k. listed (ndim (hd ss)) axes k \<longrightarrow>
                    block_offset ss axes j k \<le> idx ! k
                    \<and> idx ! k < block_offset ss axes j k + shape (ss ! j) ! k)
              [0..<ndim (hd ss)]"

definition contents :: "'a tensor \<Rightarrow> 'a list" where
  "contents t = map (entry t) (indices (shape t))"

text \<open>
  The values of the local variables of \<open>block_diag\<close> for valid axes: the transposed summands
  and the zero-filled output.
\<close>

definition moved :: "'a tensor list \<Rightarrow> int list \<Rightarrow> 'a tensor list" where
  "moved ss axes =
     map (\<lambda>s. permute_axes s (front_order (ndim (hd ss)) (listed_axes (ndim (hd ss)) axes))) ss"

definition allocated :: "'a::zero tensor list \<Rightarrow> nat \<Rightarrow> 'a tensor" where
  "allocated ts nr =
     zeros (foldr (map2 (+)) (map (\<lambda>array. take nr (shape array)) ts) (replicate nr 0)
            @ drop nr (shape (hd ts)))"

text \<open>
  In the transposed frame: a summand fits the output when its trailing extents are the
  output's or 1; the sum of the extents of a list of summands on an axis; the start of block
  \<open>j\<close> and whether an index lies in it, counted from a start position; and the index read
  through an axis order.
\<close>

definition fits :: "nat \<Rightarrow> 'a tensor \<Rightarrow> 'a tensor \<Rightarrow> bool" where
  "fits nr res a = (\<forall>k. nr \<le> k \<and> k < ndim res \<longrightarrow> shape a ! k = shape res ! k \<or> shape a ! k = 1)"

definition extent_sum :: "'a tensor list \<Rightarrow> nat \<Rightarrow> nat" where
  "extent_sum ts i = sum_list (map (\<lambda>t. shape t ! i) ts)"

definition in_blk :: "nat list \<Rightarrow> 'a tensor list \<Rightarrow> nat \<Rightarrow> nat list \<Rightarrow> bool" where
  "in_blk start ts j ti =
     (\<forall>i<length start. start ! i + extent_sum (take j ts) i \<le> ti ! i
                        \<and> ti ! i < start ! i + extent_sum (take j ts) i + shape (ts ! j) ! i)"

definition blk_start :: "nat list \<Rightarrow> 'a tensor list \<Rightarrow> nat \<Rightarrow> nat list" where
  "blk_start start ts j = map (\<lambda>i. start ! i + extent_sum (take j ts) i) [0..<length start]"

definition gather :: "nat list \<Rightarrow> nat list \<Rightarrow> nat list" where
  "gather p idx = map (\<lambda>a. idx ! (p ! a)) [0..<length p]"

text \<open>The arrays of the docstring of \<open>block_diag\<close>, and two arrays that differ on axis 1.\<close>

definition doc_a :: "int tensor" where "doc_a = arange 0 [2, 2, 2]"

definition doc_b :: "int tensor" where "doc_b = arange 8 [2, 2, 2]"

definition wide :: "int tensor" where "wide = arange 0 [2, 3]"

definition narrow :: "int tensor" where "narrow = arange 6 [2, 1]"

section \<open>Properties of the axis layout\<close>


lemma pos_of_nth: "distinct p \<Longrightarrow> k < length p \<Longrightarrow> pos_of (p ! k) p = k"
proof (induction p arbitrary: k)
  case Nil then show ?case by simp
next
  case (Cons x xs)
  show ?case
  proof (cases k)
    case 0 then show ?thesis by simp
  next
    case (Suc j)
    from Cons.prems Suc have j: "j < length xs" and d: "distinct xs" and nx: "x \<notin> set xs" by auto
    from j have "xs ! j \<in> set xs" by simp
    with nx have ne: "x \<noteq> xs ! j" by auto
    from Cons.IH[OF d j] have "pos_of (xs ! j) xs = j" .
    with ne Suc show ?thesis by simp
  qed
qed

lemma nth_pos_of: "a \<in> set p \<Longrightarrow> p ! pos_of a p = a \<and> pos_of a p < length p"
  by (induction p) auto

lemma to_local_axis_less:
  assumes "i < plegs * sites"
  shows "to_local_axis plegs sites i < plegs * sites"
proof -
  from assms have p: "0 < plegs" by (cases plegs) simp_all
  have a: "i div plegs < sites" using assms p by (simp add: less_mult_imp_div_less mult.commute)
  have b: "i mod plegs < plegs" using p by simp
  then have "i mod plegs + 1 \<le> plegs" by simp
  then have "sites * (i mod plegs + 1) \<le> sites * plegs" by (rule mult_le_mono2)
  then have "sites * (i mod plegs) + sites \<le> plegs * sites" by (simp add: mult.commute)
  with a show ?thesis unfolding to_local_axis_def by linarith
qed

lemma to_global_local:
  assumes "i < plegs * sites"
  shows "to_global_axis plegs sites (to_local_axis plegs sites i) = i"
proof -
  from assms have p: "0 < plegs" by (cases plegs) simp_all
  have a: "i div plegs < sites" using assms p by (simp add: less_mult_imp_div_less mult.commute)
  show ?thesis unfolding to_global_axis_def to_local_axis_def using a by simp
qed

lemma to_global_axis_eq: "to_global_axis plegs sites k = to_local_axis sites plegs k"
  unfolding to_global_axis_def to_local_axis_def by simp

lemma to_global_axis_less:
  assumes "k < plegs * sites"
  shows "to_global_axis plegs sites k < plegs * sites"
proof -
  from assms have "k < sites * plegs" by (simp add: mult.commute)
  from to_local_axis_less[OF this] show ?thesis
    unfolding to_global_axis_eq by (simp add: mult.commute)
qed

lemma to_local_global:
  assumes "k < plegs * sites"
  shows "to_local_axis plegs sites (to_global_axis plegs sites k) = k"
proof -
  from assms have "k < sites * plegs" by (simp add: mult.commute)
  from to_global_local[OF this] show ?thesis
    unfolding to_global_axis_def to_local_axis_def by (simp add: add.commute)
qed



lemma transpose_t_perm:
  assumes "length p = ndim t" "distinct p" "\<forall>a\<in>set p. a < ndim t"
  shows "transpose_t t (map int p) = Inr (permute_axes t p)"
proof -
  have m: "map (\<lambda>a. nat (if a < 0 then a + int (ndim t) else a)) (map int p) = p"
    by (simp add: map_idI)
  have ex: "\<not> list_ex (\<lambda>a. a < - int (ndim t) \<or> int (ndim t) \<le> a) (map int p)"
    using assms(3) by (auto simp: list_ex_iff)
  show ?thesis
    unfolding transpose_t_def Let_def using assms(1,2) ex by (simp only: m length_map) simp
qed

lemma concat_blocks:
  "concat (map (\<lambda>j. map (f j) [0..<s]) [0..<p]) = map (\<lambda>k. f (k div s) (k mod s)) [0..<p * s]"
proof (induction p)
  case 0 show ?case by simp
next
  case (Suc p)
  have "[0..<p * s + s] = [0..<p * s] @ [p * s..<p * s + s]"
    by (rule upt_add_eq_append) simp
  moreover have "[p * s..<p * s + s] = map (\<lambda>i. i + p * s) [0..<s]"
    by (simp only: map_add_upt add.commute[of s "p * s"])
  ultimately have split: "[0..<Suc p * s] = [0..<p * s] @ map (\<lambda>i. i + p * s) [0..<s]"
    by (simp only: mult_Suc add.commute[of s "p * s"])
  have blk: "map (\<lambda>k. f (k div s) (k mod s)) (map (\<lambda>i. i + p * s) [0..<s]) = map (f p) [0..<s]"
  proof (rule nth_equalityI)
    show "length (map (\<lambda>k. f (k div s) (k mod s)) (map (\<lambda>i. i + p * s) [0..<s])) = length (map (f p) [0..<s])"
      by simp
  next
    fix i assume "i < length (map (\<lambda>k. f (k div s) (k mod s)) (map (\<lambda>i. i + p * s) [0..<s]))"
    then have i: "i < s" by simp
    then have "(i + p * s) div s = p" "(i + p * s) mod s = i" by simp_all
    with i show "map (\<lambda>k. f (k div s) (k mod s)) (map (\<lambda>i. i + p * s) [0..<s]) ! i = map (f p) [0..<s] ! i"
      by simp
  qed
  have "concat (map (\<lambda>j. map (f j) [0..<s]) [0..<Suc p])
        = concat (map (\<lambda>j. map (f j) [0..<s]) [0..<p]) @ map (f p) [0..<s]"
    by simp
  also have "\<dots> = map (\<lambda>k. f (k div s) (k mod s)) [0..<p * s] @ map (f p) [0..<s]"
    by (simp only: Suc.IH)
  also have "\<dots> = map (\<lambda>k. f (k div s) (k mod s)) [0..<Suc p * s]"
    by (simp only: split map_append blk)
  finally show ?case .
qed

lemma indices_length: "idx \<in> set (indices sh) \<Longrightarrow> length idx = length sh"
  by (induction sh arbitrary: idx) auto

lemma permute_axes_inverse:
  assumes pl: "length p = n" and ql: "length q = n"
    and pd: "distinct p" and qd: "distinct q"
    and qr: "\<forall>k<n. q ! k < n" and pq: "\<forall>k<n. p ! (q ! k) = k"
    and sh: "length (shape t) = n" and il: "length idx = n"
  shows "entry (permute_axes (permute_axes t p) q) idx = entry t idx"
    and "shape (permute_axes (permute_axes t p) q) = shape t"
proof -
  have pos: "pos_of (pos_of b p) q = b" if "b < n" for b
  proof -
    from that qr have qb: "q ! b < n" by simp
    from that pq have "p ! (q ! b) = b" by simp
    then have "pos_of b p = pos_of (p ! (q ! b)) p" by simp
    also have "\<dots> = q ! b" using pos_of_nth[OF pd] qb pl by simp
    finally have "pos_of b p = q ! b" .
    then show ?thesis using pos_of_nth[OF qd] that ql by simp
  qed
  have posr: "pos_of b p < n" if "b < n" for b
  proof -
    from that qr have qb: "q ! b < n" by simp
    from that pq have "p ! (q ! b) = b" by simp
    then have "pos_of b p = pos_of (p ! (q ! b)) p" by simp
    also have "\<dots> = q ! b" using pos_of_nth[OF pd] qb pl by simp
    finally show ?thesis using qb by simp
  qed
  have "map (\<lambda>b. map (\<lambda>a. idx ! pos_of a q) [0..<n] ! pos_of b p) [0..<n] = idx"
    by (rule nth_equalityI) (use il pos posr in auto)
  then show "entry (permute_axes (permute_axes t p) q) idx = entry t idx"
    unfolding permute_axes_def using pl ql by simp
  have "map (\<lambda>k. map (\<lambda>k. shape t ! k) p ! k) q = shape t"
    by (rule nth_equalityI) (use sh ql pl qr pq in auto)
  then show "shape (permute_axes (permute_axes t p) q) = shape t"
    unfolding permute_axes_def by simp
qed



lemma plegs_sites: "n mod sites = 0 \<Longrightarrow> (n div sites) * sites = (n::nat)"
  by (simp add: mod_eq_0_iff_dvd)

lemma local_order_perm:
  assumes "plegs * sites = n"
  shows "length (map (to_local_axis plegs sites) [0..<n]) = n"
    and "distinct (map (to_local_axis plegs sites) [0..<n])"
    and "\<forall>a\<in>set (map (to_local_axis plegs sites) [0..<n]). a < n"
proof -
  show "length (map (to_local_axis plegs sites) [0..<n]) = n" by simp
  have "inj_on (to_local_axis plegs sites) {0..<n}"
    by (rule inj_on_inverseI[where g = "to_global_axis plegs sites"])
       (use assms to_global_local in auto)
  then show "distinct (map (to_local_axis plegs sites) [0..<n])"
    by (simp add: distinct_map)
  show "\<forall>a\<in>set (map (to_local_axis plegs sites) [0..<n]). a < n"
    using to_local_axis_less[of _ plegs sites] assms by auto
qed

lemma global_order_perm:
  assumes "plegs * sites = n"
  shows "length (map (to_global_axis plegs sites) [0..<n]) = n"
    and "distinct (map (to_global_axis plegs sites) [0..<n])"
    and "\<forall>a\<in>set (map (to_global_axis plegs sites) [0..<n]). a < n"
proof -
  show "length (map (to_global_axis plegs sites) [0..<n]) = n" by simp
  have "inj_on (to_global_axis plegs sites) {0..<n}"
    by (rule inj_on_inverseI[where g = "to_local_axis plegs sites"])
       (use assms to_local_global in auto)
  then show "distinct (map (to_global_axis plegs sites) [0..<n])"
    by (simp add: distinct_map)
  show "\<forall>a\<in>set (map (to_global_axis plegs sites) [0..<n]). a < n"
    using to_global_axis_less[of _ plegs sites] assms by auto
qed

lemma global_to_local_eq:
  assumes "0 < sites" "ndim t mod sites = 0"
  shows "global_to_local t sites
         = Inr (permute_axes t (map (to_local_axis (ndim t div sites) sites) [0..<ndim t]))"
proof -
  let ?plegs = "ndim t div sites"
  have n: "?plegs * sites = ndim t" using assms(2) by (rule plegs_sites)
  have "global_to_local t sites
        = transpose_t t (map int (map (to_local_axis ?plegs sites) [0..<ndim t]))"
    unfolding global_to_local_def Let_def to_local_axis_def[abs_def] using assms n by simp
  also have "\<dots> = Inr (permute_axes t (map (to_local_axis ?plegs sites) [0..<ndim t]))"
    using local_order_perm[OF n] by (intro transpose_t_perm) simp_all
  finally show ?thesis .
qed

lemma local_to_global_eq:
  assumes "0 < sites" "ndim t mod sites = 0"
  shows "local_to_global t sites 0 0
         = Inr (permute_axes t (map (to_global_axis (ndim t div sites) sites) [0..<ndim t]))"
proof -
  let ?plegs = "ndim t div sites"
  have n: "?plegs * sites = ndim t" using assms(2) by (rule plegs_sites)
  have m: "int (ndim t) mod int sites = 0"
    using assms(2) by (simp flip: zmod_int)
  have d: "int (ndim t) div int sites = int ?plegs" by (simp add: zdiv_int)
  have inner: "concat (map (\<lambda>j. map (\<lambda>i. int ?plegs * int i + int j) [0..<sites])
                        [0..<?plegs])
               = map int (map (to_global_axis ?plegs sites) [0..<ndim t])"
    unfolding concat_blocks n by (simp add: to_global_axis_def)
  have tl: "[int (ndim t) - int 0 .. int (ndim t) - 1] = []" by simp
  have "local_to_global t sites 0 0
        = transpose_t t (map int (map (to_global_axis ?plegs sites) [0..<ndim t]))"
    unfolding local_to_global_def Let_def using assms(1) m
    by (simp add: d inner del: map_map)
  also have "\<dots> = Inr (permute_axes t (map (to_global_axis ?plegs sites) [0..<ndim t]))"
    using global_order_perm[OF n] by (intro transpose_t_perm) simp_all
  finally show ?thesis .
qed

section \<open>Round trip of the layouts, extents, and the empty partial trace\<close>

text \<open>
  Claim C2. For every tensor \<open>T\<close> and every number of sites that divides the number of
  axes of \<open>T\<close>, \<open>global_to_local\<close> followed by \<open>local_to_global\<close> with the same number
  of sites and no skipped axes succeeds and returns a tensor equal to \<open>T\<close>: the same shape
  and the same entry at every index.
\<close>

theorem layout_roundtrip:
  assumes "0 < sites" and "ndim T mod sites = 0"
  shows "\<exists>L G. global_to_local T sites = Inr L \<and> local_to_global L sites 0 0 = Inr G
               \<and> tensor_eq G T"
proof -
  let ?n = "ndim T" and ?plegs = "ndim T div sites"
  let ?p = "map (to_local_axis ?plegs sites) [0..<?n]"
  let ?q = "map (to_global_axis ?plegs sites) [0..<?n]"
  let ?L = "permute_axes T ?p"
  have n: "?plegs * sites = ?n" using assms(2) by (rule plegs_sites)
  have L: "global_to_local T sites = Inr ?L" using assms by (rule global_to_local_eq)
  have nL: "ndim ?L = ?n" by (simp add: ndim_def permute_axes_def)
  then have "ndim ?L mod sites = 0" using assms(2) by simp
  with assms(1) have "local_to_global ?L sites 0 0
        = Inr (permute_axes ?L (map (to_global_axis (ndim ?L div sites) sites) [0..<ndim ?L]))"
    by (rule local_to_global_eq)
  then have G: "local_to_global ?L sites 0 0 = Inr (permute_axes ?L ?q)"
    by (simp only: nL)
  have qr: "\<forall>k<?n. ?q ! k < ?n"
    using to_global_axis_less[of _ ?plegs sites] n by simp
  have pq: "\<forall>k<?n. ?p ! (?q ! k) = k"
  proof (intro allI impI)
    fix k assume k: "k < ?n"
    then have "to_global_axis ?plegs sites k < ?n"
      using to_global_axis_less[of k ?plegs sites] n by simp
    then have "?p ! (?q ! k) = to_local_axis ?plegs sites (to_global_axis ?plegs sites k)"
      using k by simp
    also have "\<dots> = k" using to_local_global[of k ?plegs sites] k n by simp
    finally show "?p ! (?q ! k) = k" .
  qed
  note inv = permute_axes_inverse[where p = ?p and q = ?q and n = ?n and t = T,
      OF _ _ local_order_perm(2)[OF n] global_order_perm(2)[OF n] qr pq]
  have sh: "shape (permute_axes ?L ?q) = shape T"
    by (rule inv(2)[where idx = "replicate ?n 0"]) (simp_all add: ndim_def)
  have en: "entry (permute_axes ?L ?q) idx = entry T idx" if "idx \<in> set (indices (shape T))" for idx
  proof -
    from that have "length idx = ?n" by (simp add: indices_length ndim_def)
    then show ?thesis by (intro inv(1)) (simp_all add: ndim_def)
  qed
  have "tensor_eq (permute_axes ?L ?q) T"
    unfolding tensor_eq_def using sh en by (simp add: list_all_iff)
  with L G show ?thesis by blast
qed

theorem layout_roundtrip_witness:
  "(0::nat) < 3 \<and> ndim doc_range mod 3 = 0
   \<and> (\<exists>L G. global_to_local doc_range 3 = Inr L \<and> local_to_global L 3 0 0 = Inr G
              \<and> tensor_eq G doc_range)"
  using layout_roundtrip[of 3 doc_range] by (simp add: doc_range_def arange_def ndim_def)

text \<open>
  Claim C3, as the code has it. The order list of \<open>global_to_local\<close> names, for every
  output position \<open>i\<close>, the input axis found there: the output extent at position \<open>i\<close> is
  the input extent at position \<open>i div plegs + sites * (i mod plegs)\<close>.
\<close>

theorem global_to_local_extent:
  assumes "0 < sites" and "ndim t mod sites = 0" and "i < ndim t"
  shows "\<exists>r. global_to_local t sites = Inr r \<and> ndim r = ndim t
             \<and> shape r ! i = shape t ! (i div (ndim t div sites) + sites * (i mod (ndim t div sites)))"
proof -
  have "global_to_local t sites
        = Inr (permute_axes t (map (to_local_axis (ndim t div sites) sites) [0..<ndim t]))"
    using assms(1,2) by (rule global_to_local_eq)
  moreover have "ndim (permute_axes t (map (to_local_axis (ndim t div sites) sites) [0..<ndim t]))
                 = ndim t"
    by (simp add: ndim_def permute_axes_def)
  moreover have "shape (permute_axes t (map (to_local_axis (ndim t div sites) sites) [0..<ndim t])) ! i
                 = shape t ! (i div (ndim t div sites) + sites * (i mod (ndim t div sites)))"
    using assms(3) by (simp add: permute_axes_def to_local_axis_def)
  ultimately show ?thesis by blast
qed

theorem global_to_local_extent_witness:
  "(0::nat) < 3 \<and> ndim doc_zeros mod 3 = 0 \<and> (1::nat) < ndim doc_zeros
   \<and> (\<exists>r. global_to_local doc_zeros 3 = Inr r \<and> ndim r = ndim doc_zeros \<and> shape r ! 1 = 4)"
  using global_to_local_extent[of 3 doc_zeros 1]
  by (simp add: doc_zeros_def zeros_def ndim_def)

text \<open>
  The claim reads the rule in the other direction (the axis at input position \<open>i\<close> moves to
  output position \<open>i div plegs + sites * (i mod plegs)\<close>). On the docstring's array of shape
  \<open>(1, 2, 3, 4, 5, 6)\<close> with three sites the result has shape \<open>(1, 4, 2, 5, 3, 6)\<close>: input
  axis 1 has extent 2, and output position \<open>1 div 2 + 3 * (1 mod 2) = 3\<close> has extent 5.
\<close>

theorem global_to_local_moves_counterexample:
  "ndim doc_zeros mod 3 = 0
   \<and> map_sum id shape (global_to_local doc_zeros 3) = Inr [1, 4, 2, 5, 3, 6]
   \<and> shape (projr (global_to_local doc_zeros 3))
        ! (1 div (ndim doc_zeros div 3) + 3 * (1 mod (ndim doc_zeros div 3)))
      \<noteq> shape doc_zeros ! 1"
  by (simp add: global_to_local_eq doc_zeros_def zeros_def ndim_def permute_axes_def
      to_local_axis_def upt_rec)

text \<open>
  Claim C10. \<open>partial_trace\<close> with an empty list of sites returns its argument, whatever the
  number of axes: the test for an even number of axes comes after the test for the empty list.
\<close>

theorem partial_trace_empty: "partial_trace T [] = Inr T"
  by (subst partial_trace.simps) simp

theorem partial_trace_empty_witness:
  "partial_trace (arange 0 [2, 3, 4]) [] = Inr (arange 0 [2, 3, 4])"
  using partial_trace_empty[of "arange 0 [2, 3, 4]"] by simp

section \<open>Chain construction\<close>


lemma run_func_length: "length (fst (run_func func shs st)) = length shs"
proof (induction shs arbitrary: st)
  case Nil then show ?case by simp
next
  case (Cons sh shs)
  obtain t st1 where f: "func sh st = (t, st1)" by (cases "func sh st")
  obtain ts st2 where r: "run_func func shs st1 = (ts, st2)" by (cases "run_func func shs st1")
  from Cons.IH[of st1] r f show ?case by simp
qed

lemma run_func_shape:
  "shape_honest func \<Longrightarrow> i < length shs \<Longrightarrow> shape (fst (run_func func shs st) ! i) = shs ! i"
proof (induction shs arbitrary: st i)
  case Nil then show ?case by simp
next
  case (Cons sh shs)
  obtain t st1 where f: "func sh st = (t, st1)" by (cases "func sh st")
  obtain ts st2 where r: "run_func func shs st1 = (ts, st2)" by (cases "run_func func shs st1")
  from Cons.prems(1) f have t: "shape t = sh" unfolding shape_honest_def by (metis fst_conv)
  show ?case
  proof (cases i)
    case 0 with f r t show ?thesis by simp
  next
    case (Suc j)
    with Cons.prems have "j < length shs" by simp
    from Cons.IH[OF Cons.prems(1) this, of st1] r Suc f show ?thesis by simp
  qed
qed

lemma zrandn_shape: "shape (fst (zrandn sh st)) = sh"
  unfolding zrandn_def by (auto simp: Let_def randn_def split: prod.splits option.splits)

lemma zrandn_honest: "shape_honest zrandn"
  unfolding shape_honest_def by (simp add: zrandn_shape)

lemma zeros_honest: "shape_honest (\<lambda>sh st. (zeros sh, st))"
  unfolding shape_honest_def by (simp add: zeros_def)

text \<open>The chain that generate builds from the per-site shapes.\<close>

lemma build_shapes:
  assumes h: "shape_honest func"
    and l: "func shl st = (ltens_l, st1)"
    and m: "run_func func shs st1 = (ltenss, st2)"
    and r: "func shr st2 = (ltens_r, st3)"
  shows "map shape ([ltens_l] @ ltenss @ [ltens_r]) = [shl] @ shs @ [shr]"
proof -
  from h l have a: "shape ltens_l = shl" unfolding shape_honest_def by (metis fst_conv)
  from h r have b: "shape ltens_r = shr" unfolding shape_honest_def by (metis fst_conv)
  have len: "length ltenss = length shs" using run_func_length[of func shs st1] m by simp
  have "map shape ltenss = shs"
  proof (rule nth_equalityI)
    show "length (map shape ltenss) = length shs" using len by simp
  next
    fix i assume "i < length (map shape ltenss)"
    then have i: "i < length shs" using len by simp
    from run_func_shape[OF h i, of st1] m i len show "map shape ltenss ! i = shs ! i" by simp
  qed
  with a b show ?thesis by simp
qed

lemma generate_flat_result:
  assumes s: "2 \<le> sites" and v: "ldim = Scalar d \<and> ds = [d] \<or> ldim = Flat ds \<and> ds \<noteq> []"
  shows "\<exists>ltens_l st1 ltenss st2 ltens_r st3.
           func ([1] @ ds @ [bdim]) st = (ltens_l, st1)
           \<and> run_func func (replicate (sites - 2) ([bdim] @ ds @ [bdim])) st1 = (ltenss, st2)
           \<and> func ([bdim] @ ds @ [1]) st2 = (ltens_r, st3)
           \<and> generate sites ldim bdim func st = Inr ([ltens_l] @ ltenss @ [ltens_r], st3)"
proof -
  obtain ltens_l st1 where l: "func ([1] @ ds @ [bdim]) st = (ltens_l, st1)"
    by (cases "func ([1] @ ds @ [bdim]) st")
  obtain ltenss st2 where m: "run_func func (replicate (sites - 2) ([bdim] @ ds @ [bdim])) st1 = (ltenss, st2)"
    by (cases "run_func func (replicate (sites - 2) ([bdim] @ ds @ [bdim])) st1")
  obtain ltens_r st3 where r: "func ([bdim] @ ds @ [1]) st2 = (ltens_r, st3)"
    by (cases "func ([bdim] @ ds @ [1]) st2")
  have g: "generate sites ldim bdim func st = Inr ([ltens_l] @ ltenss @ [ltens_r], st3)"
    using v s l m r unfolding generate_def by (auto simp: Let_def)
  with l m r show ?thesis by blast
qed

lemma generate_flat_shapes:
  assumes h: "shape_honest func" and s: "2 \<le> sites" and v: "ldim = Scalar d \<and> ds = [d] \<or> ldim = Flat ds \<and> ds \<noteq> []"
  shows "\<exists>chain st'. generate sites ldim bdim func st = Inr (chain, st')
           \<and> map shape chain = [[1] @ ds @ [bdim]] @ replicate (sites - 2) ([bdim] @ ds @ [bdim])
                                @ [[bdim] @ ds @ [1]]"
proof -
  from generate_flat_result[OF s v, of func bdim st]
  obtain ltens_l st1 ltenss st2 ltens_r st3 where
    l: "func ([1] @ ds @ [bdim]) st = (ltens_l, st1)" and
    m: "run_func func (replicate (sites - 2) ([bdim] @ ds @ [bdim])) st1 = (ltenss, st2)" and
    r: "func ([bdim] @ ds @ [1]) st2 = (ltens_r, st3)" and
    g: "generate sites ldim bdim func st = Inr ([ltens_l] @ ltenss @ [ltens_r], st3)"
    by blast
  from build_shapes[OF h l m r] g show ?thesis by blast
qed

lemma generate_nested_result:
  assumes s: "2 \<le> sites" and v: "sites \<le> length lds"
  shows "\<exists>ltens_l st1 ltenss st2 ltens_r st3.
           func ([1] @ lds ! 0 @ [bdim]) st = (ltens_l, st1)
           \<and> run_func func (map (\<lambda>ld. [bdim] @ ld @ [bdim]) (take (sites - 2) (tl lds))) st1 = (ltenss, st2)
           \<and> func ([bdim] @ lds ! (sites - 1) @ [1]) st2 = (ltens_r, st3)
           \<and> generate sites (Nested lds) bdim func st = Inr ([ltens_l] @ ltenss @ [ltens_r], st3)"
proof -
  from s v obtain ld0 rest where lds: "lds = ld0 # rest" by (cases lds) auto
  from s v lds have "drop (sites - 2) rest \<noteq> []" by auto
  then obtain ld rest' where d: "drop (sites - 2) rest = ld # rest'" by (cases "drop (sites - 2) rest") auto
  have "ld = rest ! (sites - 2)"
    using d by (metis Cons_nth_drop_Suc drop_all linorder_not_less list.discI list.inject)
  then have ld: "ld = lds ! (sites - 1)" using lds s
    by (metis One_nat_def Suc_1 Suc_diff_Suc Suc_le_lessD diff_Suc_1 nth_Cons_Suc)
  obtain ltens_l st1 where l: "func ([1] @ ld0 @ [bdim]) st = (ltens_l, st1)"
    by (cases "func ([1] @ ld0 @ [bdim]) st")
  obtain ltenss st2 where m: "run_func func (map (\<lambda>ld. [bdim] @ ld @ [bdim]) (take (sites - 2) rest)) st1 = (ltenss, st2)"
    by (cases "run_func func (map (\<lambda>ld. [bdim] @ ld @ [bdim]) (take (sites - 2) rest)) st1")
  obtain ltens_r st3 where r: "func ([bdim] @ ld @ [1]) st2 = (ltens_r, st3)"
    by (cases "func ([bdim] @ ld @ [1]) st2")
  have g: "generate sites (Nested lds) bdim func st = Inr ([ltens_l] @ ltenss @ [ltens_r], st3)"
    using s l m r d lds unfolding generate_def by (auto simp: Let_def)
  with l m r lds ld show ?thesis by auto
qed

lemma generate_nested_shapes:
  assumes h: "shape_honest func" and s: "2 \<le> sites" and v: "sites \<le> length lds"
  shows "\<exists>chain st'. generate sites (Nested lds) bdim func st = Inr (chain, st')
           \<and> map shape chain = [[1] @ lds ! 0 @ [bdim]]
                                @ map (\<lambda>ld. [bdim] @ ld @ [bdim]) (take (sites - 2) (tl lds))
                                @ [[bdim] @ lds ! (sites - 1) @ [1]]"
proof -
  from generate_nested_result[OF s v, of func bdim st]
  obtain ltens_l st1 ltenss st2 ltens_r st3 where
    l: "func ([1] @ lds ! 0 @ [bdim]) st = (ltens_l, st1)" and
    m: "run_func func (map (\<lambda>ld. [bdim] @ ld @ [bdim]) (take (sites - 2) (tl lds))) st1 = (ltenss, st2)" and
    r: "func ([bdim] @ lds ! (sites - 1) @ [1]) st2 = (ltens_r, st3)" and
    g: "generate sites (Nested lds) bdim func st = Inr ([ltens_l] @ ltenss @ [ltens_r], st3)"
    by blast
  from build_shapes[OF h l m r] g show ?thesis by blast
qed

lemma generate_too_few_sites: "sites < 2 \<Longrightarrow> generate sites ldim bdim func st = Inl AssertionError"
  unfolding generate_def by simp

lemma generate_short_nested:
  assumes "2 \<le> sites" and "length lds < sites"
  shows "generate sites (Nested lds) bdim func st = Inl (if lds = [] then IndexError else StopIteration)"
proof (cases lds)
  case Nil then show ?thesis using assms unfolding generate_def by simp
next
  case (Cons ld0 rest)
  with assms have "drop (sites - 2) rest = []" by auto
  with Cons assms show ?thesis unfolding generate_def
    by (auto simp: Let_def split: prod.splits)
qed


lemma generate_flat_empty: "2 \<le> sites \<Longrightarrow> generate sites (Flat []) bdim func st = Inl IndexError"
  unfolding generate_def by simp

lemma shapes_nth:
  assumes "map shape chain = L" 
  shows "length chain = length L" and "i < length L \<Longrightarrow> shape (chain ! i) = L ! i"
proof -
  from assms show "length chain = length L" by auto
  assume "i < length L"
  with assms show "shape (chain ! i) = L ! i" by auto
qed


lemma chain_list_nth:
  assumes "length mid = n"
  shows "([a] @ mid @ [b]) ! 0 = a" and "([a] @ mid @ [b]) ! Suc n = b"
    and "i < n \<Longrightarrow> ([a] @ mid @ [b]) ! Suc i = mid ! i"
  using assms by (auto simp: nth_append)

lemma two_sites: "2 \<le> sites \<Longrightarrow> \<exists>k. sites = Suc (Suc k)"
  by (cases sites) (auto simp: le_Suc_eq numeral_2_eq_2 Suc_le_eq dest: Suc_lessD gr0_implies_Suc)

text \<open>
  Claim C8, as the code has it. For at least two sites, a valid leg specification and any
  bond dimension, \<open>_generate\<close> returns a chain of \<open>sites\<close> local tensors; the first has
  shape \<open>(1, L 0, bdim)\<close>, the last \<open>(bdim, L (sites - 1), 1)\<close> and every other one
  \<open>(bdim, L i, bdim)\<close>, where \<open>L i\<close> is the tuple that \<open>_generate\<close> passes for site \<open>i\<close>:
  \<open>(d, )\<close> for a scalar \<open>d\<close>, the per-site tuple \<open>i\<close>, and for a flat sequence the whole
  sequence at every site. The generator function is one that returns tensors of the shape
  asked for (as \<open>np.zeros\<close> and \<open>_zrandn\<close> do).
\<close>

theorem generate_bond_shapes:
  assumes "2 \<le> sites" and "valid_ldim sites ldim" and "shape_honest func"
  shows "\<exists>chain st'. generate sites ldim bdim func st = Inr (chain, st') \<and> length chain = sites
           \<and> shape (chain ! 0) = [1] @ passed_legs ldim 0 @ [bdim]
           \<and> shape (chain ! (sites - 1)) = [bdim] @ passed_legs ldim (sites - 1) @ [1]
           \<and> (\<forall>i. 0 < i \<and> i < sites - 1 \<longrightarrow> shape (chain ! i) = [bdim] @ passed_legs ldim i @ [bdim])"
proof -
  from two_sites[OF assms(1)] obtain k where k: "sites = Suc (Suc k)" by blast
  have main: ?thesis
    if g: "generate sites ldim bdim func st = Inr (chain, st')"
      and m: "map shape chain = [[1] @ passed_legs ldim 0 @ [bdim]] @ mid @ [[bdim] @ passed_legs ldim (Suc k) @ [1]]"
      and ml: "length mid = k"
      and mi: "\<And>i. i < k \<Longrightarrow> mid ! i = [bdim] @ passed_legs ldim (Suc i) @ [bdim]"
    for chain st' mid
  proof -
    let ?L = "[[1] @ passed_legs ldim 0 @ [bdim]] @ mid @ [[bdim] @ passed_legs ldim (Suc k) @ [1]]"
    have len: "length ?L = sites" using ml k by simp
    have a: "shape (chain ! 0) = [1] @ passed_legs ldim 0 @ [bdim]"
      using shapes_nth(2)[OF m, of 0] chain_list_nth(1)[OF ml] by simp
    have "shape (chain ! Suc k) = ?L ! Suc k"
      using shapes_nth(2)[OF m, of "Suc k"] len k by simp
    then have b: "shape (chain ! (sites - 1)) = [bdim] @ passed_legs ldim (sites - 1) @ [1]"
      using chain_list_nth(2)[OF ml] k by simp
    have c: "shape (chain ! i) = [bdim] @ passed_legs ldim i @ [bdim]" if "0 < i" "i < sites - 1" for i
    proof -
      from that k obtain j where j: "i = Suc j" "j < k" by (cases i) auto
      have "shape (chain ! i) = ?L ! Suc j" using shapes_nth(2)[OF m, of i] len that j by simp
      also have "\<dots> = mid ! j" using chain_list_nth(3)[OF ml j(2)] by simp
      finally show ?thesis using mi[OF j(2)] j by simp
    qed
    from g shapes_nth(1)[OF m] len a b c show ?thesis by simp
  qed
  have flat: ?thesis if v: "ldim = Scalar d \<and> ds = [d] \<or> ldim = Flat ds \<and> ds \<noteq> []" for d ds
  proof -
    from generate_flat_shapes[OF assms(3,1) v, of bdim st]
    obtain chain st' where g: "generate sites ldim bdim func st = Inr (chain, st')"
      and m: "map shape chain = [[1] @ ds @ [bdim]] @ replicate (sites - 2) ([bdim] @ ds @ [bdim])
                                @ [[bdim] @ ds @ [1]]" by blast
    have lg: "passed_legs ldim i = ds" for i using v by auto
    show ?thesis
      by (rule main[OF g, of "replicate (sites - 2) ([bdim] @ ds @ [bdim])"])
         (use m k in \<open>simp_all add: lg\<close>)
  qed
  show ?thesis
  proof (cases ldim)
    case (Scalar d) then show ?thesis using flat[of d "[d]"] by simp
  next
    case (Flat ds)
    with assms(1,2) have "ds \<noteq> []" by auto
    with Flat show ?thesis using flat[of _ ds] by simp
  next
    case (Nested lds)
    with assms(2) have v: "sites \<le> length lds" and eq: "length lds = sites" by simp_all
    from generate_nested_shapes[OF assms(3,1) v, of bdim st]
    obtain chain st' where g: "generate sites (Nested lds) bdim func st = Inr (chain, st')"
      and m: "map shape chain = [[1] @ lds ! 0 @ [bdim]]
              @ map (\<lambda>ld. [bdim] @ ld @ [bdim]) (take (sites - 2) (tl lds))
              @ [[bdim] @ lds ! (sites - 1) @ [1]]" by blast
    show ?thesis
      by (rule main[of chain st' "map (\<lambda>ld. [bdim] @ ld @ [bdim]) (take (sites - 2) (tl lds))"])
         (use g m k eq Nested in \<open>simp_all add: nth_tl\<close>)
  qed
qed

theorem generate_bond_shapes_witness:
  "(2::nat) \<le> 4 \<and> valid_ldim 4 (Nested [[1], [2, 3], [4, 5], [1]])
   \<and> shape_honest (\<lambda>sh st. (zeros sh :: real tensor, st :: unit))
   \<and> (\<exists>chain st'. generate 4 (Nested [[1], [2, 3], [4, 5], [1]]) 10 (\<lambda>sh st. (zeros sh :: real tensor, st)) ()
                        = Inr (chain, st') \<and> length chain = 4
         \<and> shape (chain ! 0) = [1, 1, 10] \<and> shape (chain ! 1) = [10, 2, 3, 10]
         \<and> shape (chain ! 2) = [10, 4, 5, 10] \<and> shape (chain ! 3) = [10, 1, 1])
   \<and> valid_ldim 2 (Flat [2, 3])
   \<and> (\<exists>chain st'. generate 2 (Flat [2, 3]) 5 (\<lambda>sh st. (zeros sh :: real tensor, st)) ()
                        = Inr (chain, st') \<and> length chain = 2
         \<and> shape (chain ! 0) = [1, 2, 3, 5] \<and> shape (chain ! 1) = [5, 2, 3, 1])"
proof -
  have h: "shape_honest (\<lambda>sh st. (zeros sh :: real tensor, st :: unit))" by (rule zeros_honest)
  have v: "valid_ldim 4 (Nested [[1], [2, 3], [4, 5], [1]])" by simp
  from generate_bond_shapes[OF _ v h, of 10 "()"]
  obtain chain st' where g: "generate 4 (Nested [[1], [2, 3], [4, 5], [1]]) 10 (\<lambda>sh st. (zeros sh :: real tensor, st)) ()
                        = Inr (chain, st')" "length chain = 4"
    "shape (chain ! 0) = [1] @ passed_legs (Nested [[1], [2, 3], [4, 5], [1]]) 0 @ [10]"
    "shape (chain ! (4 - 1)) = [10] @ passed_legs (Nested [[1], [2, 3], [4, 5], [1]]) (4 - 1) @ [1]"
    "\<forall>i. 0 < i \<and> i < 4 - 1 \<longrightarrow> shape (chain ! i) = [10] @ passed_legs (Nested [[1], [2, 3], [4, 5], [1]]) i @ [10]"
    by auto
  from g(5) have "shape (chain ! 1) = [10, 2, 3, 10]" "shape (chain ! 2) = [10, 4, 5, 10]"
    by simp_all
  with g have nested: "\<exists>chain st'. generate 4 (Nested [[1], [2, 3], [4, 5], [1]]) 10 (\<lambda>sh st. (zeros sh :: real tensor, st)) ()
                        = Inr (chain, st') \<and> length chain = 4
         \<and> shape (chain ! 0) = [1, 1, 10] \<and> shape (chain ! 1) = [10, 2, 3, 10]
         \<and> shape (chain ! 2) = [10, 4, 5, 10] \<and> shape (chain ! 3) = [10, 1, 1]"
    by simp
  have w: "valid_ldim 2 (Flat [2, 3])" by simp
  from generate_bond_shapes[OF _ w h, of 5 "()"]
  obtain chain2 st2 where f: "generate 2 (Flat [2, 3]) 5 (\<lambda>sh st. (zeros sh :: real tensor, st)) ()
                        = Inr (chain2, st2)" "length chain2 = 2"
    "shape (chain2 ! 0) = [1] @ passed_legs (Flat [2, 3]) 0 @ [5]"
    "shape (chain2 ! (2 - 1)) = [5] @ passed_legs (Flat [2, 3]) (2 - 1) @ [1]"
    by auto
  then have flat: "\<exists>chain st'. generate 2 (Flat [2, 3]) 5 (\<lambda>sh st. (zeros sh :: real tensor, st)) ()
                        = Inr (chain, st') \<and> length chain = 2
         \<and> shape (chain ! 0) = [1, 2, 3, 5] \<and> shape (chain ! 1) = [5, 2, 3, 1]"
    by simp
  from nested flat h v w show ?thesis by simp
qed

text \<open>
  The claim reads \<open>legs[i]\<close> as the spec does, where a flat sequence of length \<open>sites\<close> gives
  site \<open>i\<close> the single leg \<open>ldim[i]\<close>. For two sites, the flat sequence \<open>(2, 3)\<close> and bond
  dimension 5 the chain has the shapes \<open>(1, 2, 3, 5)\<close> and \<open>(5, 2, 3, 1)\<close>, not
  \<open>(1, 2, 5)\<close> and \<open>(5, 3, 1)\<close>.
\<close>

theorem bond_shapes_flat_counterexample:
  "valid_ldim 2 (Flat [2, 3])
   \<and> map_sum id (map shape) (zero 2 (Flat [2, 3]) 5 :: error + real tensor list)
       = Inr [[1, 2, 3, 5], [5, 2, 3, 1]]
   \<and> shape (projr (zero 2 (Flat [2, 3]) 5 :: error + real tensor list) ! 0)
       \<noteq> [1] @ legs (Flat [2, 3]) 0 @ [5]
   \<and> shape (projr (zero 2 (Flat [2, 3]) 5 :: error + real tensor list) ! (2 - 1))
       \<noteq> [5] @ legs (Flat [2, 3]) (2 - 1) @ [1]"
  by (simp add: zero_def generate_def zeros_def Let_def)

lemma passed_legs_spec:
  "(\<forall>ds. ldim \<noteq> Flat ds) \<Longrightarrow> passed_legs ldim i = legs ldim i"
  by (cases ldim) simp_all

text \<open>
  Claim C4, as the code has it. A non-empty flat sequence of scalars, of any length, is the
  list of physical legs of every site: each site of the chain has all the extents of the
  sequence as its legs.
\<close>

theorem generate_flat_legs:
  assumes "2 \<le> sites" and "ds \<noteq> []" and "shape_honest func"
  shows "\<exists>chain st'. generate sites (Flat ds) bdim func st = Inr (chain, st') \<and> length chain = sites
           \<and> pdims chain = replicate sites ds"
proof -
  from two_sites[OF assms(1)] obtain k where k: "sites = Suc (Suc k)" by blast
  from generate_flat_shapes[OF assms(3,1), of "Flat ds" _ ds bdim st] assms(2)
  obtain chain st' where g: "generate sites (Flat ds) bdim func st = Inr (chain, st')"
    and m: "map shape chain = [[1] @ ds @ [bdim]] @ replicate (sites - 2) ([bdim] @ ds @ [bdim])
                              @ [[bdim] @ ds @ [1]]" by blast
  have bt: "butlast (tl (x # ds @ [y])) = ds" for x y :: nat by simp
  have "pdims chain = map (\<lambda>sh. butlast (tl sh)) (map shape chain)"
    unfolding pdims_def by simp
  also have "\<dots> = [ds] @ replicate k ds @ [ds]"
    unfolding m k by (simp add: butlast_snoc)
  also have "\<dots> = replicate sites ds"
    unfolding k by (simp add: replicate_append_same)
  finally have p: "pdims chain = replicate sites ds" .
  have "length chain = sites" using shapes_nth(1)[OF m] k by simp
  with g p show ?thesis by blast
qed

theorem generate_flat_legs_witness:
  "(2::nat) \<le> 4 \<and> [1, 2] \<noteq> ([]::nat list) \<and> shape_honest zrandn
   \<and> (\<exists>chain st'. generate 4 (Flat [1, 2]) 10 zrandn (None, source_plus) = Inr (chain, st')
         \<and> length chain = 4 \<and> pdims chain = [[1, 2], [1, 2], [1, 2], [1, 2]])"
  using generate_flat_legs[of 4 "[1, 2]" zrandn 10 "(None, source_plus)"] zrandn_honest
  by (simp add: numeral_eq_Suc)

text \<open>
  The claim gives site \<open>i\<close> the single leg of extent \<open>ldim[i]\<close>. For two sites and the flat
  sequence \<open>(2, 3)\<close> both sites have the two legs \<open>(2, 3)\<close>, not one leg each.
\<close>

theorem flat_ldim_counterexample:
  "map_sum id (pdims \<circ> fst) (random_mpa 2 (Flat [2, 3]) 1 (None, source_plus)) = Inr [[2, 3], [2, 3]]
   \<and> map_sum id (pdims \<circ> fst) (random_mpa 2 (Flat [2, 3]) 1 (None, source_plus)) \<noteq> Inr [[2], [3]]"
  by (simp add: random_mpa_def generate_def zrandn_def randn_def pdims_def Let_def)

text \<open>
  Claim C7, as the code has it. Leaving aside per-site sequences with more entries than
  sites, \<open>_generate\<close> raises exactly when there are fewer than two sites, the sequence is
  empty, or there are fewer per-site entries than sites; the result is then the exception and
  no chain. A flat sequence of scalars is accepted whatever its length.
\<close>

theorem generate_fails_exactly:
  assumes "not_longer sites ldim"
  shows "(\<exists>e. generate sites ldim bdim func st = Inl e) \<longleftrightarrow> fails_early sites ldim"
proof (cases "sites < 2")
  case True
  then show ?thesis using generate_too_few_sites[of sites ldim bdim func st]
    by (simp add: fails_early_def)
next
  case False
  then have s: "2 \<le> sites" by simp
  show ?thesis
  proof (cases ldim)
    case (Scalar d)
    from generate_flat_result[OF s, of ldim d "[d]" func bdim st] Scalar False
    show ?thesis by (auto simp: fails_early_def)
  next
    case (Flat ds)
    show ?thesis
    proof (cases "ds = []")
      case True
      with Flat False generate_flat_empty[OF s, of bdim func st] show ?thesis
        by (simp add: fails_early_def)
    next
      case ne: False
      from generate_flat_result[OF s, of ldim _ ds func bdim st] Flat ne False
      show ?thesis by (auto simp: fails_early_def)
    qed
  next
    case (Nested lds)
    show ?thesis
    proof (cases "length lds < sites")
      case True
      with Nested False generate_short_nested[OF s True, of bdim func st] show ?thesis
        by (simp add: fails_early_def)
    next
      case ge: False
      then have "sites \<le> length lds" by simp
      from generate_nested_result[OF s this, of func bdim st] Nested ge False
      show ?thesis by (auto simp: fails_early_def)
    qed
  qed
qed

theorem generate_fails_exactly_witness:
  "not_longer 1 (Nested [[2]]) \<and> fails_early 1 (Nested [[2]])
   \<and> (\<exists>e. generate 1 (Nested [[2]]) 3 zrandn (None, source_plus) = Inl e)"
  using generate_fails_exactly[of 1 "Nested [[2]]" 3 zrandn "(None, source_plus)"]
  by (simp add: not_longer_def fails_early_def)

text \<open>
  The claim makes every sequence whose length differs from the number of sites fail. The
  docstring's call with four sites and the flat sequence \<open>(1, 2)\<close> builds a chain.
\<close>

theorem ldim_length_counterexample:
  "length [1, 2 :: nat] \<noteq> 4
   \<and> map_sum id (map shape) (zero 4 (Flat [1, 2]) 10 :: error + real tensor list)
       = Inr [[1, 1, 2, 10], [10, 1, 2, 10], [10, 1, 2, 10], [10, 1, 2, 1]]"
  by (simp add: zero_def generate_def zeros_def Let_def numeral_eq_Suc)

section \<open>Random sources\<close>


lemma zrandn_supplied:
  "zrandn sh (Some r, g) = (fst (zrandn sh (Some r, g')), (fst (snd (zrandn sh (Some r, g'))), g))"
  unfolding zrandn_def by (simp add: Let_def split: prod.splits)

lemma zrandn_global_entry:
  "entry (fst (zrandn [1, 1] (None, g))) [0, 0]
   = Complex (draws g (consumed g)) (draws g (consumed g + 1))"
  unfolding zrandn_def by (simp add: Let_def randn_def flat_index_def split: prod.splits)

lemma gue_1x1_entry:
  assumes "qr_1x1 qr"
  shows "entry (fst (gue qr 1 (rs, g))) [0, 0]
         = (let z = entry (fst (zrandn [1, 1] (None, g))) [0, 0] / complex_of_real (sqrt 2)
            in z / complex_of_real (cmod z))"
    and "fst (snd (gue qr 1 (rs, g))) = rs"
proof -
  obtain z0 st1 where z0: "zrandn [1, 1] (None, g) = (z0, st1)" by (cases "zrandn [1, 1] (None, g)")
  define z where "z = z0\<lparr>entry := (\<lambda>idx. entry z0 idx / complex_of_real (sqrt 2))\<rparr>"
  obtain q r where qr: "qr z = (q, r)" by (cases "qr z")
  have "shape z0 = [1, 1]" using z0 zrandn_shape[of "[1, 1]" "(None, g)"] by simp
  then have "shape z = [1, 1]" by (simp add: z_def)
  with assms qr have f: "entry q [0, 0] * entry r [0, 0] = entry z [0, 0]" and u: "cmod (entry q [0, 0]) = 1"
    unfolding qr_1x1_def by auto
  have "cmod (entry z [0, 0]) = cmod (entry q [0, 0] * entry r [0, 0])"
    by (simp only: f)
  then have "cmod (entry z [0, 0]) = cmod (entry q [0, 0]) * cmod (entry r [0, 0])"
    by (simp only: norm_mult)
  with u have n: "cmod (entry r [0, 0]) = cmod (entry z [0, 0])" by simp
  have g1: "gue qr 1 (rs, g)
        = (q\<lparr>entry := (\<lambda>idx. entry q idx * (entry r [idx ! 1, idx ! 1]
                           / complex_of_real (cmod (entry r [idx ! 1, idx ! 1]))))\<rparr>, (rs, snd st1))"
    unfolding gue_def using z0 qr by (simp add: Let_def z_def[symmetric] diagonal_def)
  then have "entry (fst (gue qr 1 (rs, g))) [0, 0]
             = entry q [0, 0] * (entry r [0, 0] / complex_of_real (cmod (entry r [0, 0])))"
    by simp
  also have "\<dots> = entry z [0, 0] / complex_of_real (cmod (entry z [0, 0]))"
    using f n by simp
  finally show "entry (fst (gue qr 1 (rs, g))) [0, 0]
         = (let z = entry (fst (zrandn [1, 1] (None, g))) [0, 0] / complex_of_real (sqrt 2)
            in z / complex_of_real (cmod z))"
    using z0 by (simp add: z_def Let_def)
  from g1 show "fst (snd (gue qr 1 (rs, g))) = rs" by simp
qed

lemma qr_trivial_1x1: "qr_1x1 qr_trivial"
  unfolding qr_1x1_def qr_trivial_def by simp

text \<open>
  Claim C1 at \<open>_gue\<close>. For every factorisation that is a QR factorisation on matrices with
  one entry, two runs of \<open>_gue(1, randstate)\<close> with the same supplied source \<open>s\<close> return
  different matrices when numpy's module-level source differs, and the supplied source is
  handed back unread: the result is a function of the module-level source, not of the
  supplied one. \<open>_zrandn\<close> itself reads only a supplied source (\<open>zrandn_supplied\<close>).
\<close>

theorem gue_reads_global_source:
  assumes "qr_1x1 qr"
  shows "entry (fst (gue qr 1 (Some s, source_plus))) [0, 0]
         \<noteq> entry (fst (gue qr 1 (Some s, source_minus))) [0, 0]
         \<and> fst (snd (gue qr 1 (Some s, source_plus))) = Some s"
proof -
  let ?a = "Complex 1 1 / complex_of_real (sqrt 2)"
  have "cmod (Complex 1 1) = sqrt 2"
    unfolding cmod_def by simp
  then have na: "cmod ?a = 1"
    by (simp only: norm_divide norm_of_real) simp
  have zp: "entry (fst (zrandn [1, 1] (None, source_plus))) [0, 0] = Complex 1 1"
    unfolding zrandn_global_entry by (simp add: source_plus_def)
  have zm: "entry (fst (zrandn [1, 1] (None, source_minus))) [0, 0] = Complex (- 1) (- 1)"
    unfolding zrandn_global_entry by (simp add: source_minus_def)
  have a: "entry (fst (gue qr 1 (Some s, source_plus))) [0, 0] = ?a"
    unfolding gue_1x1_entry(1)[OF assms] zp Let_def na by simp
  have mb: "Complex (- 1) (- 1) / complex_of_real (sqrt 2) = - ?a"
    by (simp add: complex_eq_iff)
  have nb: "cmod (- ?a) = 1" using na by (simp only: norm_minus_cancel)
  have b: "entry (fst (gue qr 1 (Some s, source_minus))) [0, 0] = - ?a"
    unfolding gue_1x1_entry(1)[OF assms] zm Let_def mb nb by simp
  have "?a \<noteq> 0" using na by auto
  then have "?a \<noteq> - ?a" by (simp add: complex_eq_iff)
  with a b gue_1x1_entry(2)[OF assms, of "Some s" source_plus] show ?thesis by simp
qed

theorem gue_reads_global_source_witness:
  "qr_1x1 qr_trivial
   \<and> entry (fst (gue qr_trivial 1 (Some source_plus, source_plus))) [0, 0]
      \<noteq> entry (fst (gue qr_trivial 1 (Some source_plus, source_minus))) [0, 0]
   \<and> fst (snd (gue qr_trivial 1 (Some source_plus, source_plus))) = Some source_plus"
  using gue_reads_global_source[OF qr_trivial_1x1, of source_plus] qr_trivial_1x1 by simp

section \<open>Block-diagonal sum: the axis orders\<close>


lemma resolve_axes_range:
  assumes "list_all (\<lambda>a. - int n \<le> a \<and> a < int n) axes"
  shows "\<forall>a\<in>set (resolve_axes n axes). 0 \<le> a \<and> a < int n"
  using assms unfolding resolve_axes_def by (auto simp: list_all_iff)

lemma listed_axes_props:
  assumes "valid_axes n axes"
  shows "map int (listed_axes n axes) = resolve_axes n axes"
    and "distinct (listed_axes n axes)"
    and "\<forall>a\<in>set (listed_axes n axes). a < n"
    and "listed_axes n axes \<noteq> []"
    and "int k \<in> set (resolve_axes n axes) \<longleftrightarrow> k \<in> set (listed_axes n axes)"
proof -
  from assms have r: "\<forall>a\<in>set (resolve_axes n axes). 0 \<le> a \<and> a < int n"
    unfolding valid_axes_def by (intro resolve_axes_range) simp
  then show m: "map int (listed_axes n axes) = resolve_axes n axes"
    unfolding listed_axes_def by (simp add: map_idI)
  from assms have "distinct (map int (listed_axes n axes))" unfolding m valid_axes_def by simp
  then show "distinct (listed_axes n axes)" by (simp add: distinct_map)
  show "\<forall>a\<in>set (listed_axes n axes). a < n"
    using r unfolding listed_axes_def by auto
  show "listed_axes n axes \<noteq> []"
    using assms unfolding valid_axes_def listed_axes_def resolve_axes_def by simp
  have "int k \<in> set (map int (listed_axes n axes)) \<longleftrightarrow> k \<in> set (listed_axes n axes)"
    by auto
  then show "int k \<in> set (resolve_axes n axes) \<longleftrightarrow> k \<in> set (listed_axes n axes)"
    unfolding m .
qed

lemma axes_order_nat:
  assumes "valid_axes n axes"
  shows "resolve_axes n axes @ map int (filter (\<lambda>i. int i \<notin> set (resolve_axes n axes)) [0..<n])
         = map int (front_order n (listed_axes n axes))"
  unfolding front_order_def map_append listed_axes_props(1)[OF assms]
  using listed_axes_props(5)[OF assms] by simp

lemma front_order_perm:
  assumes "distinct A" and "\<forall>a\<in>set A. a < n"
  shows "distinct (front_order n A)" and "set (front_order n A) = {0..<n}"
    and "length (front_order n A) = n"
    and "\<forall>a\<in>set (front_order n A). a < n"
    and "i < length A \<Longrightarrow> front_order n A ! i = A ! i"
    and "take (length A) (front_order n A) = A"
proof -
  show d: "distinct (front_order n A)" unfolding front_order_def using assms(1) by auto
  show s: "set (front_order n A) = {0..<n}" unfolding front_order_def using assms(2) by auto
  from d have "length (front_order n A) = card (set (front_order n A))"
    by (simp add: distinct_card)
  then show "length (front_order n A) = n" unfolding s by simp
  show "\<forall>a\<in>set (front_order n A). a < n" unfolding s by simp
  show "i < length A \<Longrightarrow> front_order n A ! i = A ! i" unfolding front_order_def
    by (simp add: nth_append)
  show "take (length A) (front_order n A) = A" unfolding front_order_def by simp
qed

lemma transpose_all_perm:
  assumes "length p = n" "distinct p" "\<forall>a\<in>set p. a < n" "\<forall>s\<in>set ss. ndim s = n"
  shows "transpose_all ss (map int p) = Inr (map (\<lambda>s. permute_axes s p) ss)"
  using assms(4)
proof (induction ss)
  case Nil show ?case by simp
next
  case (Cons s ss)
  then have "ndim s = n" by simp
  with assms(1-3) have "transpose_t s (map int p) = Inr (permute_axes s p)"
    by (intro transpose_t_perm) simp_all
  with Cons show ?case by simp
qed

lemma sort_key_fst_perm:
  assumes d: "distinct p" and s: "set p = {0..<n}"
  shows "map fst (sort_key fst (zip (map int p) [0..<length p])) = map int [0..<n]"
proof -
  let ?zs = "zip (map int p) [0..<length p]"
  let ?ys = "sort_key fst ?zs"
  have dz: "distinct (map fst ?zs)" using d by (simp add: distinct_map)
  then have "distinct ?zs \<and> inj_on fst (set ?zs)" by (simp only: distinct_map)
  then have dy: "distinct (map fst ?ys)" by (simp add: distinct_map)
  have sy: "set (map fst ?ys) = int ` {0..<n}"
  proof -
    have "set (map fst ?ys) = set (map fst ?zs)" by (simp only: set_map set_sort)
    also have "\<dots> = int ` set p" by simp
    finally show ?thesis using s by simp
  qed
  show ?thesis
  proof (rule sorted_distinct_set_unique)
    show "sorted (map fst ?ys)" by (rule sorted_sort_key)
    show "distinct (map fst ?ys)" by (rule dy)
    show "sorted (map int [0..<n])" by (simp add: sorted_map sorted_wrt_mono_rel[OF _ sorted_wrt_upt])
    show "distinct (map int [0..<n])" by (simp add: distinct_map)
    show "set (map fst ?ys) = set (map int [0..<n])" using sy by simp
  qed
qed

lemma argsort_perm:
  assumes d: "distinct p" and s: "set p = {0..<n}"
  shows "argsort (map int p) = map (\<lambda>v. pos_of v p) [0..<n]"
proof -
  let ?zs = "zip (map int p) [0..<length p]"
  let ?ys = "sort_key fst ?zs"
  have len: "length p = n" using d s by (metis card_atLeastLessThan diff_zero distinct_card)
  have f: "map fst ?ys = map int [0..<n]" using sort_key_fst_perm[OF d s] .
  have ly: "length ?ys = n" using len by simp
  have "map snd ?ys = map (\<lambda>v. pos_of v p) [0..<n]"
  proof (rule nth_equalityI)
    show "length (map snd ?ys) = length (map (\<lambda>v. pos_of v p) [0..<n])" using ly by simp
  next
    fix v assume "v < length (map snd ?ys)"
    then have v: "v < n" using ly by simp
    have "fst (?ys ! v) = map fst ?ys ! v" using v ly by simp
    also have "\<dots> = int v" unfolding f using v by simp
    finally have fv: "fst (?ys ! v) = int v" .
    have "?ys ! v \<in> set ?ys" using v ly by (intro nth_mem) simp
    then have "?ys ! v \<in> set ?zs" by (simp only: set_sort)
    then obtain k where k: "k < n" "?ys ! v = (int (p ! k), k)"
      using len by (auto simp: set_zip)
    with fv have "p ! k = v" by simp
    then have "pos_of v p = k" using pos_of_nth[OF d, of k] k(1) len by simp
    with k v ly show "map snd ?ys ! v = map (\<lambda>v. pos_of v p) [0..<n] ! v" by simp
  qed
  then show ?thesis unfolding argsort_def by simp
qed

lemma inverse_order_props:
  assumes d: "distinct p" and s: "set p = {0..<n}"
  defines "q \<equiv> map (\<lambda>v. pos_of v p) [0..<n]"
  shows "length q = n" and "distinct q" and "\<forall>a\<in>set q. a < n"
    and "\<forall>k<n. p ! (q ! k) = k" and "\<forall>k<n. q ! (p ! k) = k" and "\<forall>a<n. pos_of a q = p ! a"
proof -
  have len: "length p = n" using d s by (metis card_atLeastLessThan diff_zero distinct_card)
  show lq: "length q = n" unfolding q_def by simp
  have np: "p ! pos_of v p = v \<and> pos_of v p < n" if "v < n" for v
    using nth_pos_of[of v p] that s len by simp
  show pq: "\<forall>k<n. p ! (q ! k) = k" unfolding q_def using np by simp
  show rq: "\<forall>a\<in>set q. a < n" unfolding q_def using np by auto
  have pk: "p ! k < n" if "k < n" for k using that len s nth_mem[of k p] by auto
  show qp: "\<forall>k<n. q ! (p ! k) = k" unfolding q_def using pk pos_of_nth[OF d] len by simp
  have "inj_on (\<lambda>v. pos_of v p) {0..<n}"
    by (rule inj_on_inverseI[where g = "\<lambda>k. p ! k"]) (use np in auto)
  then show dq: "distinct q" unfolding q_def by (simp add: distinct_map)
  show "\<forall>a<n. pos_of a q = p ! a"
  proof (intro allI impI)
    fix a assume a: "a < n"
    then have "q ! (p ! a) = a" using qp by simp
    then have "pos_of a q = pos_of (q ! (p ! a)) q" by simp
    also have "\<dots> = p ! a" using pos_of_nth[OF dq, of "p ! a"] pk[OF a] lq by simp
    finally show "pos_of a q = p ! a" .
  qed
qed

section \<open>Block-diagonal sum: placing the blocks\<close>

lemma in_slices_iff:
  fixes startpos endpos idx :: "nat list"
  assumes "length startpos = nr" "length endpos = nr" "nr \<le> length idx"
  shows "in_slices startpos endpos idx \<longleftrightarrow> (\<forall>i<nr. startpos ! i \<le> idx ! i \<and> idx ! i < endpos ! i)"
proof -
  have l: "length (zip startpos (zip endpos idx)) = nr" using assms by simp
  have "in_slices startpos endpos idx
        \<longleftrightarrow> (\<forall>i<nr. (\<lambda>(s, e, i). s \<le> i \<and> i < e) (zip startpos (zip endpos idx) ! i))"
    unfolding in_slices_def list_all_length l ..
  also have "\<dots> \<longleftrightarrow> (\<forall>i<nr. startpos ! i \<le> idx ! i \<and> idx ! i < endpos ! i)"
    using assms by auto
  finally show ?thesis .
qed

lemma add_block_Inr:
  assumes "0 < length startpos" and "add_block res startpos endpos a = Inr res1"
  shows "shape res1 = shape res"
    and "entry res1 idx =
           (if in_slices startpos endpos idx
            then entry res idx
                 + entry a (bcast_index (shape a)
                     (map2 (-) (take (length startpos) idx) startpos @ drop (length startpos) idx))
            else entry res idx)"
  using assms unfolding add_block_def Let_def by (auto split: if_splits)

lemma region_eq:
  fixes startpos sh sa :: "nat list"
  assumes nr: "length startpos = nr" "nr \<le> n" and r: "length sh = n" and a: "length sa = n"
    and b: "\<forall>i<nr. startpos ! i + sa ! i \<le> sh ! i"
  shows "map (\<lambda>(s, e, d). min e d - min s d) (zip startpos (zip (map2 (+) startpos (take nr sa)) sh))
         = take nr sa"
proof (rule nth_equalityI)
  show "length (map (\<lambda>(s, e, d). min e d - min s d) (zip startpos (zip (map2 (+) startpos (take nr sa)) sh)))
        = length (take nr sa)"
    using nr r a by simp
next
  fix i assume "i < length (map (\<lambda>(s, e, d). min e d - min s d) (zip startpos (zip (map2 (+) startpos (take nr sa)) sh)))"
  then have i: "i < nr" using nr r a by simp
  with b have le: "startpos ! i + sa ! i \<le> sh ! i" by simp
  have "map (\<lambda>(s, e, d). min e d - min s d) (zip startpos (zip (map2 (+) startpos (take nr sa)) sh)) ! i
        = min (startpos ! i + sa ! i) (sh ! i) - min (startpos ! i) (sh ! i)"
    using i nr r a by simp
  also have "\<dots> = sa ! i" using le by (auto simp: min_def)
  finally show "map (\<lambda>(s, e, d). min e d - min s d) (zip startpos (zip (map2 (+) startpos (take nr sa)) sh)) ! i
        = take nr sa ! i" using i by simp
qed

lemma broadcastable_region:
  fixes sh sa :: "nat list"
  assumes "nr \<le> n" "length sh = n" "length sa = n"
  shows "broadcastable sa (take nr sa @ drop nr sh)
         \<longleftrightarrow> (\<forall>k. nr \<le> k \<and> k < n \<longrightarrow> sa ! k = sh ! k \<or> sa ! k = 1)"
proof -
  have l: "length (take nr sa @ drop nr sh) = n" using assms by simp
  have nth: "(take nr sa @ drop nr sh) ! k = (if k < nr then sa ! k else sh ! k)" if "k < n" for k
    using that assms by (simp add: nth_append)
  have "broadcastable sa (take nr sa @ drop nr sh)
        \<longleftrightarrow> (\<forall>k<n. sa ! k = (take nr sa @ drop nr sh) ! k \<or> sa ! k = 1)"
    unfolding broadcastable_def l using assms l by (simp add: list_all2_conv_all_nth)
  also have "\<dots> \<longleftrightarrow> (\<forall>k<n. sa ! k = (if k < nr then sa ! k else sh ! k) \<or> sa ! k = 1)"
    using nth by simp
  also have "\<dots> \<longleftrightarrow> (\<forall>k. nr \<le> k \<and> k < n \<longrightarrow> sa ! k = sh ! k \<or> sa ! k = 1)"
    by (auto simp: not_less)
  finally show ?thesis .
qed

lemma add_block_cases:
  assumes nr: "length startpos = nr" "0 < nr" "nr \<le> n" and r: "ndim res = n" and a: "ndim a = n"
    and b: "\<forall>i<nr. startpos ! i + shape a ! i \<le> shape res ! i"
  shows "fits nr res a \<Longrightarrow> \<exists>res1. add_block res startpos (map2 (+) startpos (take nr (shape a))) a = Inr res1"
    and "\<not> fits nr res a \<Longrightarrow> add_block res startpos (map2 (+) startpos (take nr (shape a))) a = Inl ValueError"
proof -
  have reg: "map (\<lambda>(s, e, d). min e d - min s d)
               (zip startpos (zip (map2 (+) startpos (take nr (shape a))) (shape res)))
             = take nr (shape a)"
    using region_eq[OF nr(1,3) _ _ b] r a by (simp add: ndim_def)
  have bc: "broadcastable (shape a) (take nr (shape a) @ drop nr (shape res)) \<longleftrightarrow> fits nr res a"
    unfolding fits_def using broadcastable_region[OF nr(3), of "shape res" "shape a"] r a
    by (simp add: ndim_def)
  have n0: "\<not> ndim res < length startpos" "length startpos \<noteq> 0" using nr r by simp_all
  show "fits nr res a \<Longrightarrow> \<exists>res1. add_block res startpos (map2 (+) startpos (take nr (shape a))) a = Inr res1"
    unfolding add_block_def Let_def using n0 bc by (simp add: reg nr(1))
  show "\<not> fits nr res a \<Longrightarrow> add_block res startpos (map2 (+) startpos (take nr (shape a))) a = Inl ValueError"
    unfolding add_block_def Let_def using n0 bc by (simp add: reg nr(1))
qed

lemma fits_shape: "shape res1 = shape res \<Longrightarrow> fits nr res1 a = fits nr res a"
  unfolding fits_def ndim_def by simp

lemma extent_sum_Cons: "extent_sum (t # ts) i = shape t ! i + extent_sum ts i"
  unfolding extent_sum_def by simp

lemma extent_sum_Nil: "extent_sum [] i = 0"
  unfolding extent_sum_def by simp

lemma endpos_nth:
  fixes start :: "nat list"
  assumes "length start = nr" "nr \<le> length sa" "i < nr"
  shows "map2 (+) start (take nr sa) ! i = start ! i + sa ! i"
  using assms by simp

lemma endpos_length:
  fixes start :: "nat list"
  assumes "length start = nr" "nr \<le> length sa"
  shows "length (map2 (+) start (take nr sa)) = nr"
  using assms by simp

lemma place_blocks_cases:
  assumes "length start = nr" "0 < nr" "nr \<le> n" "ndim res = n" "\<forall>t\<in>set ts. ndim t = n"
    and "\<forall>i<nr. start ! i + extent_sum ts i \<le> shape res ! i"
  shows "((\<forall>t\<in>set ts. fits nr res t) \<longrightarrow> (\<exists>res'. place_blocks res start ts = Inr res' \<and> shape res' = shape res))
       \<and> (\<not> (\<forall>t\<in>set ts. fits nr res t) \<longrightarrow> place_blocks res start ts = Inl ValueError)"
  using assms
proof (induction ts arbitrary: res start)
  case Nil
  show ?case by simp
next
  case (Cons t ts)
  let ?end = "map2 (+) start (take nr (shape t))"
  have nt: "ndim t = n" using Cons.prems(5) by simp
  then have lt: "nr \<le> length (shape t)" using Cons.prems(3) by (simp add: ndim_def)
  have le: "length ?end = nr" using endpos_length[OF Cons.prems(1) lt] by simp
  have en: "?end ! i = start ! i + shape t ! i" if "i < nr" for i
    using endpos_nth[OF Cons.prems(1) lt that] .
  have b0: "\<forall>i<nr. start ! i + shape t ! i \<le> shape res ! i"
    using Cons.prems(6) by (auto simp: extent_sum_Cons intro: le_trans[rotated])
  note ab = add_block_cases[OF Cons.prems(1,2,3,4) nt b0]
  have pb: "place_blocks res start (t # ts)
            = (case add_block res start ?end t of Inl e \<Rightarrow> Inl e | Inr res1 \<Rightarrow> place_blocks res1 ?end ts)"
    using Cons.prems(1) by (simp add: Let_def)
  show ?case
  proof (cases "fits nr res t")
    case False
    with ab(2) pb show ?thesis by auto
  next
    case True
    from ab(1)[OF True] obtain res1 where r1: "add_block res start ?end t = Inr res1" by blast
    from add_block_Inr(1)[OF _ r1] Cons.prems(1,2) have s1: "shape res1 = shape res" by simp
    have n1: "ndim res1 = n" using s1 Cons.prems(4) by (simp add: ndim_def)
    have b1: "\<forall>i<nr. ?end ! i + extent_sum ts i \<le> shape res1 ! i"
      using Cons.prems(6) en s1 by (simp add: extent_sum_Cons add.assoc)
    have ts: "\<forall>t\<in>set ts. ndim t = n" using Cons.prems(5) by simp
    note IH = Cons.IH[OF le Cons.prems(2,3) n1 ts b1]
    have f: "(\<forall>t\<in>set ts. fits nr res1 t) = (\<forall>t\<in>set ts. fits nr res t)"
      using fits_shape[OF s1] by simp
    from IH pb r1 s1 True f show ?thesis by auto
  qed
qed

lemma in_blk_zero:
  assumes "length start = nr" "nr \<le> length (shape t)" "nr \<le> length ti"
  shows "in_blk start (t # ts) 0 ti \<longleftrightarrow> in_slices start (map2 (+) start (take nr (shape t))) ti"
proof -
  have "in_slices start (map2 (+) start (take nr (shape t))) ti
        \<longleftrightarrow> (\<forall>i<nr. start ! i \<le> ti ! i \<and> ti ! i < map2 (+) start (take nr (shape t)) ! i)"
    using assms by (intro in_slices_iff) simp_all
  also have "\<dots> \<longleftrightarrow> (\<forall>i<nr. start ! i \<le> ti ! i \<and> ti ! i < start ! i + shape t ! i)"
    using assms by simp
  finally show ?thesis unfolding in_blk_def using assms(1) by (simp add: extent_sum_Nil)
qed

lemma in_blk_Suc:
  assumes "length start = nr" "nr \<le> length (shape t)"
  shows "in_blk start (t # ts) (Suc j) ti \<longleftrightarrow> in_blk (map2 (+) start (take nr (shape t))) ts j ti"
  unfolding in_blk_def using assms by (simp add: extent_sum_Cons add.assoc)

lemma blk_start_zero: "blk_start start ts 0 = start"
  unfolding blk_start_def by (simp add: extent_sum_Nil map_nth)

lemma blk_start_Suc:
  assumes "length start = nr" "nr \<le> length (shape t)"
  shows "blk_start start (t # ts) (Suc j) = blk_start (map2 (+) start (take nr (shape t))) ts j"
  unfolding blk_start_def using assms by (simp add: extent_sum_Cons add.assoc)

lemma blocks_disjoint:
  assumes "length start = nr" "0 < nr" "nr \<le> length (shape t)"
    and "in_blk (map2 (+) start (take nr (shape t))) ts j ti"
  shows "\<not> in_blk start (t # ts) 0 ti"
proof
  assume z: "in_blk start (t # ts) 0 ti"
  from z assms(1,2) have "ti ! 0 < start ! 0 + shape t ! 0"
    unfolding in_blk_def by (auto simp: extent_sum_Nil)
  moreover from assms have "start ! 0 + shape t ! 0 \<le> ti ! 0"
    unfolding in_blk_def by (auto dest!: spec[where x = 0])
  ultimately show False by simp
qed

lemma place_blocks_outside:
  assumes "length start = nr" "0 < nr" "nr \<le> n" "\<forall>t\<in>set ts. ndim t = n" "length ti = n"
    and "place_blocks res start ts = Inr res'"
    and "\<forall>j<length ts. \<not> in_blk start ts j ti"
  shows "entry res' ti = entry res ti"
  using assms
proof (induction ts arbitrary: res start)
  case Nil
  then show ?case by simp
next
  case (Cons t ts)
  let ?end = "map2 (+) start (take nr (shape t))"
  have lt: "nr \<le> length (shape t)" using Cons.prems(3,4) by (simp add: ndim_def)
  have le: "length ?end = nr" using endpos_length[OF Cons.prems(1) lt] by simp
  from Cons.prems(6,1) obtain res1 where r1: "add_block res start ?end t = Inr res1"
    and r2: "place_blocks res1 ?end ts = Inr res'"
    by (auto simp: Let_def split: sum.splits)
  have "\<not> in_blk start (t # ts) 0 ti" using Cons.prems(7) by auto
  then have "\<not> in_slices start ?end ti"
    using in_blk_zero[OF Cons.prems(1) lt, of ti ts] Cons.prems(3,5) by simp
  then have e1: "entry res1 ti = entry res ti"
    using add_block_Inr(2)[OF _ r1, of ti] Cons.prems(1,2) by simp
  have "\<forall>j<length ts. \<not> in_blk ?end ts j ti"
    using Cons.prems(7) in_blk_Suc[OF Cons.prems(1) lt, of ts _ ti] by auto
  from Cons.IH[OF le Cons.prems(2,3) _ Cons.prems(5) r2 this] Cons.prems(4) e1
  show ?case by simp
qed

lemma place_blocks_inside:
  assumes "length start = nr" "0 < nr" "nr \<le> n" "\<forall>t\<in>set ts. ndim t = n" "length ti = n"
    and "place_blocks res start ts = Inr res'"
    and "j < length ts" and "in_blk start ts j ti"
  shows "entry res' ti
         = entry res ti
           + entry (ts ! j) (bcast_index (shape (ts ! j))
                               (map2 (-) (take nr ti) (blk_start start ts j) @ drop nr ti))"
  using assms
proof (induction ts arbitrary: res start j)
  case Nil
  then show ?case by simp
next
  case (Cons t ts)
  let ?end = "map2 (+) start (take nr (shape t))"
  have lt: "nr \<le> length (shape t)" using Cons.prems(3,4) by (simp add: ndim_def)
  have le: "length ?end = nr" using endpos_length[OF Cons.prems(1) lt] by simp
  have ts: "\<forall>t\<in>set ts. ndim t = n" using Cons.prems(4) by simp
  from Cons.prems(6,1) obtain res1 where r1: "add_block res start ?end t = Inr res1"
    and r2: "place_blocks res1 ?end ts = Inr res'"
    by (auto simp: Let_def split: sum.splits)
  note z = in_blk_zero[OF Cons.prems(1) lt, of ti ts]
  show ?case
  proof (cases j)
    case 0
    with Cons.prems(8) z Cons.prems(3,5) have "in_slices start ?end ti" by simp
    then have e1: "entry res1 ti
                   = entry res ti + entry t (bcast_index (shape t) (map2 (-) (take nr ti) start @ drop nr ti))"
      using add_block_Inr(2)[OF _ r1, of ti] Cons.prems(1,2) by simp
    have "\<forall>j'<length ts. \<not> in_blk ?end ts j' ti"
      using blocks_disjoint[OF Cons.prems(1,2) lt, of ts _ ti] Cons.prems(8) 0 by auto
    from place_blocks_outside[OF le Cons.prems(2,3) ts Cons.prems(5) r2 this]
    have "entry res' ti = entry res1 ti" .
    with e1 0 show ?thesis by (simp add: blk_start_zero)
  next
    case (Suc j')
    with Cons.prems(7) have j': "j' < length ts" by simp
    from Cons.prems(8) Suc have ib: "in_blk ?end ts j' ti"
      using in_blk_Suc[OF Cons.prems(1) lt, of ts j' ti] by simp
    from blocks_disjoint[OF Cons.prems(1,2) lt ib] have "\<not> in_blk start (t # ts) 0 ti" .
    then have "\<not> in_slices start ?end ti" using z Cons.prems(3,5) by simp
    then have e1: "entry res1 ti = entry res ti"
      using add_block_Inr(2)[OF _ r1, of ti] Cons.prems(1,2) by simp
    from Cons.IH[OF le Cons.prems(2,3) ts Cons.prems(5) r2 j' ib] e1 Suc
    show ?thesis by (simp add: blk_start_Suc[OF Cons.prems(1) lt])
  qed
qed

lemma colsum:
  assumes "\<forall>r\<in>set rows. length r = nr"
  shows "length (foldr (map2 (+)) rows (replicate nr (0::nat))) = nr
         \<and> (\<forall>i<nr. foldr (map2 (+)) rows (replicate nr 0) ! i = sum_list (map (\<lambda>r. r ! i) rows))"
  using assms
proof (induction rows)
  case Nil show ?case by simp
next
  case (Cons r rows)
  then have IH: "length (foldr (map2 (+)) rows (replicate nr (0::nat))) = nr"
    "\<forall>i<nr. foldr (map2 (+)) rows (replicate nr 0) ! i = sum_list (map (\<lambda>r. r ! i) rows)"
    and r: "length r = nr" by simp_all
  show ?case using IH r by simp
qed

lemma allocated_shape:
  assumes "ts \<noteq> []" "\<forall>t\<in>set ts. ndim t = n" "nr \<le> n"
  shows "ndim (allocated ts nr) = n"
    and "\<forall>i<nr. shape (allocated ts nr) ! i = extent_sum ts i"
    and "\<forall>k. nr \<le> k \<and> k < n \<longrightarrow> shape (allocated ts nr) ! k = shape (hd ts) ! k"
proof -
  let ?rows = "map (\<lambda>array. take nr (shape array)) ts"
  have rows: "\<forall>r\<in>set ?rows. length r = nr" using assms(2,3) by (auto simp: ndim_def)
  note cs = colsum[OF rows]
  have hd: "ndim (hd ts) = n" using assms(1,2) by simp
  show "ndim (allocated ts nr) = n"
    unfolding allocated_def ndim_def zeros_def using cs hd assms(3) by (simp add: ndim_def)
  have "sum_list (map (\<lambda>r. r ! i) ?rows) = extent_sum ts i" if "i < nr" for i
    unfolding extent_sum_def using that by (simp add: comp_def cong: map_cong)
  then show "\<forall>i<nr. shape (allocated ts nr) ! i = extent_sum ts i"
    unfolding allocated_def zeros_def using cs by (simp add: nth_append)
  show "\<forall>k. nr \<le> k \<and> k < n \<longrightarrow> shape (allocated ts nr) ! k = shape (hd ts) ! k"
    unfolding allocated_def zeros_def using cs hd by (auto simp: nth_append ndim_def)
qed

lemma allocated_entry: "entry (allocated ts nr) idx = 0"
  unfolding allocated_def zeros_def by simp

lemma block_diag_unfold:
  assumes sr: "same_rank ss" and va: "valid_axes (ndim (hd ss)) axes"
  shows "block_diag ss axes
         = (case place_blocks (allocated (moved ss axes) (length axes)) (replicate (length axes) 0)
                   (moved ss axes) of
              Inl e \<Rightarrow> Inl e
            | Inr res \<Rightarrow>
                transpose_t res
                  (map int (map (\<lambda>v. pos_of v (front_order (ndim (hd ss)) (listed_axes (ndim (hd ss)) axes)))
                            [0..<ndim (hd ss)])))"
proof -
  define n where "n = ndim (hd ss)"
  define p where "p = front_order n (listed_axes n axes)"
  define ord where "ord = resolve_axes n axes @ map int (filter (\<lambda>i. int i \<notin> set (resolve_axes n axes)) [0..<n])"
  from sr obtain first rest where ss: "ss = first # rest" unfolding same_rank_def by (cases ss) auto
  have nf: "ndim first = n" unfolding n_def ss by simp
  from sr have "list_all (\<lambda>s. ndim s = n) ss" unfolding same_rank_def n_def by blast
  then have all: "\<forall>s\<in>set ss. ndim s = n" unfolding list_all_iff .
  have va': "valid_axes n axes" using va unfolding n_def .
  note la = listed_axes_props[OF va']
  note fo = front_order_perm[OF la(2,3)]
  have ord: "ord = map int p" unfolding p_def ord_def by (rule axes_order_nat[OF va'])
  have lr: "length (resolve_axes n axes) = length axes" unfolding resolve_axes_def by simp
  have mv: "moved ss axes = map (\<lambda>s. permute_axes s p) ss"
    unfolding moved_def p_def n_def ..
  have "transpose_all ss (map int p) = Inr (map (\<lambda>s. permute_axes s p) ss)"
  proof (rule transpose_all_perm)
    show "length p = n" unfolding p_def by (rule fo(3))
    show "distinct p" unfolding p_def by (rule fo(1))
    show "\<forall>a\<in>set p. a < n" unfolding p_def by (rule fo(4))
    show "\<forall>s\<in>set ss. ndim s = n" by (rule all)
  qed
  then have ta: "transpose_all ss ord = Inr (moved ss axes)" unfolding ord mv .
  have as: "argsort ord = map (\<lambda>v. pos_of v p) [0..<n]"
    unfolding ord p_def by (rule argsort_perm[OF fo(1,2)])
  have "block_diag ss axes
        = (case transpose_all ss ord of
             Inl e \<Rightarrow> Inl e
           | Inr summands \<Rightarrow>
               (case place_blocks (allocated summands (length (resolve_axes n axes)))
                       (replicate (length (resolve_axes n axes)) 0) summands of
                  Inl e \<Rightarrow> Inl e
                | Inr res \<Rightarrow> transpose_t res (map int (argsort ord))))"
    unfolding block_diag_def ss list.case Let_def nf ord_def allocated_def ..
  also have "\<dots> = (case place_blocks (allocated (moved ss axes) (length axes)) (replicate (length axes) 0)
                   (moved ss axes) of
              Inl e \<Rightarrow> Inl e
            | Inr res \<Rightarrow> transpose_t res (map int (map (\<lambda>v. pos_of v p) [0..<n])))"
    unfolding ta sum.case lr as ..
  finally show ?thesis unfolding p_def n_def .
qed

lemma front_order_tail:
  assumes d: "distinct A" and r: "\<forall>a\<in>set A. a < n"
  shows "k < n \<Longrightarrow> length A \<le> k \<Longrightarrow> front_order n A ! k \<notin> set A \<and> front_order n A ! k < n"
    and "a < n \<Longrightarrow> a \<notin> set A \<Longrightarrow> \<exists>k. length A \<le> k \<and> k < n \<and> front_order n A ! k = a"
proof -
  let ?F = "filter (\<lambda>i. i \<notin> set A) [0..<n]"
  have len: "length A + length ?F = n"
    using front_order_perm(3)[OF d r] unfolding front_order_def by simp
  {
    assume k: "k < n" "length A \<le> k"
    then have "k - length A < length ?F" using len by simp
    then have "?F ! (k - length A) \<in> set ?F" by (rule nth_mem)
    moreover have "front_order n A ! k = ?F ! (k - length A)"
      unfolding front_order_def using k by (simp add: nth_append)
    ultimately show "front_order n A ! k \<notin> set A \<and> front_order n A ! k < n" by simp
  }
  {
    assume a: "a < n" "a \<notin> set A"
    then have "a \<in> set ?F" by simp
    then obtain j where j: "j < length ?F" "?F ! j = a" unfolding in_set_conv_nth by blast
    then have "front_order n A ! (length A + j) = a" unfolding front_order_def by (simp add: nth_append)
    moreover have "length A + j < n" using j(1) len by simp
    ultimately show "\<exists>k. length A \<le> k \<and> k < n \<and> front_order n A ! k = a"
      by (intro exI[of _ "length A + j"]) simp
  }
qed

lemma permute_axes_shape: "shape (permute_axes s p) = map (\<lambda>k. shape s ! k) p"
  unfolding permute_axes_def by simp

lemma permute_axes_ndim: "ndim (permute_axes s p) = length p"
  unfolding permute_axes_def ndim_def by simp

lemma extent_sum_moved:
  assumes "i < length p"
  shows "extent_sum (map (\<lambda>s. permute_axes s p) ss) i = sum_list (map (\<lambda>s. shape s ! (p ! i)) ss)"
  unfolding extent_sum_def using assms by (simp add: comp_def permute_axes_shape)

lemma same_rank_all:
  assumes "same_rank ss"
  shows "ss \<noteq> []" and "\<forall>s\<in>set ss. ndim s = ndim (hd ss)"
proof -
  from assms show "ss \<noteq> []" unfolding same_rank_def by blast
  from assms have "list_all (\<lambda>s. ndim s = ndim (hd ss)) ss" unfolding same_rank_def by blast
  then show "\<forall>s\<in>set ss. ndim s = ndim (hd ss)" unfolding list_all_iff .
qed

lemma length_listed_axes: "length (listed_axes n axes) = length axes"
  unfolding listed_axes_def resolve_axes_def by simp

lemma moved_props:
  assumes sr: "same_rank ss" and va: "valid_axes (ndim (hd ss)) axes"
  shows "moved ss axes \<noteq> []"
    and "\<forall>t\<in>set (moved ss axes). ndim t = ndim (hd ss)"
    and "length (moved ss axes) = length ss"
    and "j < length ss \<Longrightarrow> moved ss axes ! j
           = permute_axes (ss ! j) (front_order (ndim (hd ss)) (listed_axes (ndim (hd ss)) axes))"
    and "hd (moved ss axes)
           = permute_axes (hd ss) (front_order (ndim (hd ss)) (listed_axes (ndim (hd ss)) axes))"
    and "length axes \<le> ndim (hd ss)" and "0 < length axes"
proof -
  let ?n = "ndim (hd ss)"
  let ?A = "listed_axes ?n axes"
  note la = listed_axes_props[OF va]
  note fo = front_order_perm[OF la(2,3)]
  note sa = same_rank_all[OF sr]
  show "moved ss axes \<noteq> []" unfolding moved_def using sa(1) by simp
  show "\<forall>t\<in>set (moved ss axes). ndim t = ?n"
  proof
    fix t assume "t \<in> set (moved ss axes)"
    then obtain s where "t = permute_axes s (front_order ?n ?A)" unfolding moved_def by auto
    then have "ndim t = length (front_order ?n ?A)" by (simp only: permute_axes_ndim)
    then show "ndim t = ?n" unfolding fo(3) .
  qed
  show "length (moved ss axes) = length ss" unfolding moved_def by simp
  show "j < length ss \<Longrightarrow> moved ss axes ! j = permute_axes (ss ! j) (front_order ?n ?A)"
    unfolding moved_def by simp
  show "hd (moved ss axes) = permute_axes (hd ss) (front_order ?n ?A)"
    unfolding moved_def using sa(1) by (simp add: hd_map)
  have "length ?A \<le> length (front_order ?n ?A)" unfolding front_order_def by simp
  then show "length axes \<le> ?n" unfolding fo(3) length_listed_axes .
  show "0 < length axes" using va unfolding valid_axes_def by simp
qed

lemma fits_moved:
  assumes sr: "same_rank ss" and va: "valid_axes (ndim (hd ss)) axes" and s: "s \<in> set ss"
  shows "fits (length axes) (allocated (moved ss axes) (length axes))
              (permute_axes s (front_order (ndim (hd ss)) (listed_axes (ndim (hd ss)) axes)))
         \<longleftrightarrow> (\<forall>a<ndim (hd ss). \<not> listed (ndim (hd ss)) axes a
                 \<longrightarrow> shape s ! a = shape (hd ss) ! a \<or> shape s ! a = 1)"
proof -
  let ?n = "ndim (hd ss)"
  let ?A = "listed_axes ?n axes"
  let ?p = "front_order ?n ?A"
  let ?nr = "length axes"
  note la = listed_axes_props[OF va]
  note fo = front_order_perm[OF la(2,3)]
  note mp = moved_props[OF sr va]
  note al = allocated_shape[OF mp(1,2,6)]
  note ft = front_order_tail[OF la(2,3)]
  have li: "listed ?n axes a \<longleftrightarrow> a \<in> set ?A" for a unfolding listed_def by (rule la(5))
  have sh: "shape (permute_axes x ?p) ! k = shape x ! (?p ! k)" if "k < ?n" for x :: "'a tensor" and k
    using that fo(3) by (simp add: permute_axes_shape)
  have r0: "shape (allocated (moved ss axes) ?nr) ! k = shape (hd ss) ! (?p ! k)"
    if "?nr \<le> k" "k < ?n" for k
    using al(3) that mp(5) sh[OF that(2)] by simp
  have "fits ?nr (allocated (moved ss axes) ?nr) (permute_axes s ?p)
        \<longleftrightarrow> (\<forall>k. ?nr \<le> k \<and> k < ?n \<longrightarrow> shape s ! (?p ! k) = shape (hd ss) ! (?p ! k) \<or> shape s ! (?p ! k) = 1)"
    unfolding fits_def al(1) using r0 sh by auto
  also have "\<dots> \<longleftrightarrow> (\<forall>a<?n. a \<notin> set ?A \<longrightarrow> shape s ! a = shape (hd ss) ! a \<or> shape s ! a = 1)"
  proof
    assume L: "\<forall>k. ?nr \<le> k \<and> k < ?n \<longrightarrow> shape s ! (?p ! k) = shape (hd ss) ! (?p ! k) \<or> shape s ! (?p ! k) = 1"
    show "\<forall>a<?n. a \<notin> set ?A \<longrightarrow> shape s ! a = shape (hd ss) ! a \<or> shape s ! a = 1"
    proof (intro allI impI)
      fix a assume "a < ?n" "a \<notin> set ?A"
      from ft(2)[OF this] obtain k where "length ?A \<le> k" "k < ?n" "?p ! k = a" by blast
      with L show "shape s ! a = shape (hd ss) ! a \<or> shape s ! a = 1"
        unfolding length_listed_axes by blast
    qed
  next
    assume R: "\<forall>a<?n. a \<notin> set ?A \<longrightarrow> shape s ! a = shape (hd ss) ! a \<or> shape s ! a = 1"
    show "\<forall>k. ?nr \<le> k \<and> k < ?n \<longrightarrow> shape s ! (?p ! k) = shape (hd ss) ! (?p ! k) \<or> shape s ! (?p ! k) = 1"
    proof (intro allI impI)
      fix k assume "?nr \<le> k \<and> k < ?n"
      then have "k < ?n" "length ?A \<le> k" unfolding length_listed_axes by simp_all
      from ft(1)[OF this] R
      show "shape s ! (?p ! k) = shape (hd ss) ! (?p ! k) \<or> shape s ! (?p ! k) = 1" by blast
    qed
  qed
  finally show ?thesis unfolding li .
qed

lemma fits_iff_clash:
  assumes sr: "same_rank ss" and va: "valid_axes (ndim (hd ss)) axes"
  shows "(\<forall>t\<in>set (moved ss axes). fits (length axes) (allocated (moved ss axes) (length axes)) t)
         \<longleftrightarrow> \<not> clash ss axes"
proof -
  let ?n = "ndim (hd ss)"
  let ?p = "front_order ?n (listed_axes ?n axes)"
  have "(\<forall>t\<in>set (moved ss axes). fits (length axes) (allocated (moved ss axes) (length axes)) t)
        \<longleftrightarrow> (\<forall>s\<in>set ss. fits (length axes) (allocated (moved ss axes) (length axes)) (permute_axes s ?p))"
    unfolding moved_def[of ss axes, THEN arg_cong[where f = set]] by simp
  also have "\<dots> \<longleftrightarrow> (\<forall>s\<in>set ss. \<forall>a<?n. \<not> listed ?n axes a
                 \<longrightarrow> shape s ! a = shape (hd ss) ! a \<or> shape s ! a = 1)"
    using fits_moved[OF sr va] by simp
  also have "\<dots> \<longleftrightarrow> \<not> clash ss axes"
    unfolding clash_def list_ex_iff
    by (simp only: set_upt Bex_def Ball_def atLeastLessThan_iff le0 simp_thms) blast
  finally show ?thesis .
qed

lemma block_diag_outcome:
  assumes sr: "same_rank ss" and va: "valid_axes (ndim (hd ss)) axes"
  shows "clash ss axes \<Longrightarrow>
           place_blocks (allocated (moved ss axes) (length axes)) (replicate (length axes) 0)
             (moved ss axes) = Inl ValueError
           \<and> block_diag ss axes = Inl ValueError"
    and "\<not> clash ss axes \<Longrightarrow>
           \<exists>res'. place_blocks (allocated (moved ss axes) (length axes)) (replicate (length axes) 0)
                    (moved ss axes) = Inr res'
                 \<and> shape res' = shape (allocated (moved ss axes) (length axes))
                 \<and> block_diag ss axes
                   = Inr (permute_axes res'
                           (map (\<lambda>v. pos_of v (front_order (ndim (hd ss)) (listed_axes (ndim (hd ss)) axes)))
                                [0..<ndim (hd ss)]))"
proof -
  let ?n = "ndim (hd ss)"
  let ?p = "front_order ?n (listed_axes ?n axes)"
  let ?q = "map (\<lambda>v. pos_of v ?p) [0..<?n]"
  let ?nr = "length axes"
  let ?ts = "moved ss axes"
  let ?res0 = "allocated ?ts ?nr"
  note la = listed_axes_props[OF va]
  note fo = front_order_perm[OF la(2,3)]
  note mp = moved_props[OF sr va]
  note al = allocated_shape[OF mp(1,2,6)]
  note io = inverse_order_props[OF fo(1,2)]
  have b: "\<forall>i<?nr. replicate ?nr 0 ! i + extent_sum ?ts i \<le> shape ?res0 ! i"
    using al(2) by simp
  have l: "length (replicate ?nr (0::nat)) = ?nr" by simp
  note pc = place_blocks_cases[OF l mp(7,6) al(1) mp(2) b, unfolded fits_iff_clash[OF sr va]]
  note un = block_diag_unfold[OF sr va]
  {
    assume c: "clash ss axes"
    with pc have f: "place_blocks ?res0 (replicate ?nr 0) ?ts = Inl ValueError" by blast
    with un show "place_blocks ?res0 (replicate ?nr 0) ?ts = Inl ValueError
                  \<and> block_diag ss axes = Inl ValueError" by simp
  }
  {
    assume c: "\<not> clash ss axes"
    with pc obtain res' where r: "place_blocks ?res0 (replicate ?nr 0) ?ts = Inr res'"
      and s: "shape res' = shape ?res0" by blast
    have nd: "ndim res' = ?n" using s al(1) by (simp add: ndim_def)
    have "transpose_t res' (map int ?q) = Inr (permute_axes res' ?q)"
      using io(1,2,3) nd by (intro transpose_t_perm) simp_all
    with un r have "block_diag ss axes = Inr (permute_axes res' ?q)" by simp
    with r s show "\<exists>res'. place_blocks ?res0 (replicate ?nr 0) ?ts = Inr res'
                 \<and> shape res' = shape ?res0
                 \<and> block_diag ss axes = Inr (permute_axes res' ?q)" by blast
  }
qed

text \<open>
  Claim C6, as the code has it. For summands of one rank and a non-empty list of distinct
  axes, \<open>block_diag\<close> raises (numpy's ValueError) exactly when some summand has, on an axis
  that is not listed, an extent that is neither the first summand's nor 1, and it returns a
  tensor otherwise, in particular whenever the precondition holds. The exception comes from
  the in-place addition of a block into the output that has been allocated already.
\<close>

theorem block_diag_fails_exactly:
  assumes "same_rank summands" and "valid_axes (ndim (hd summands)) axes"
  shows "(block_diag summands axes = Inl ValueError \<longleftrightarrow> clash summands axes)
       \<and> ((\<exists>R. block_diag summands axes = Inr R) \<longleftrightarrow> \<not> clash summands axes)
       \<and> (clash summands axes \<longrightarrow>
            place_blocks (allocated (moved summands axes) (length axes)) (replicate (length axes) 0)
              (moved summands axes) = Inl ValueError)"
proof (cases "clash summands axes")
  case True
  from block_diag_outcome(1)[OF assms True] True show ?thesis by simp
next
  case False
  from block_diag_outcome(2)[OF assms False] False show ?thesis by auto
qed

lemma wide_narrow_facts:
  "same_rank [narrow, wide]" "valid_axes (ndim (hd [narrow, wide])) [0]" "clash [narrow, wide] [0]"
  by (simp_all add: same_rank_def valid_axes_def clash_def listed_def resolve_axes_def ndim_def
      narrow_def wide_def arange_def upt_rec)

theorem block_diag_fails_exactly_witness:
  "same_rank [narrow, wide] \<and> valid_axes (ndim (hd [narrow, wide])) [0]
   \<and> clash [narrow, wide] [0] \<and> block_diag [narrow, wide] [0] = Inl ValueError"
  using block_diag_fails_exactly[OF wide_narrow_facts(1,2)] wide_narrow_facts by simp

text \<open>
  The claim makes every difference off the listed axes fail. A summand of shape \<open>(2, 1)\<close>
  after one of shape \<open>(2, 3)\<close>, summed along axis 0, is broadcast by numpy: the result has
  shape \<open>(4, 3)\<close>.
\<close>

theorem block_diag_broadcast_counterexample:
  "shape wide ! 1 \<noteq> shape narrow ! 1
   \<and> map_sum id shape (block_diag [wide, narrow] [0]) = Inr [4, 3]"
  by code_simp

lemma agree_not_clash: "agree_elsewhere ss axes \<Longrightarrow> \<not> clash ss axes"
  unfolding agree_elsewhere_def clash_def list_all_iff list_ex_iff by blast

lemma pos_in_front:
  assumes d: "distinct A" and r: "\<forall>a\<in>set A. a < n" and k: "k < n"
  shows "front_order n A ! pos_of k (front_order n A) = k"
    and "pos_of k (front_order n A) < n"
    and "k \<in> set A \<longleftrightarrow> pos_of k (front_order n A) < length A"
proof -
  let ?p = "front_order n A"
  note fo = front_order_perm[OF d r]
  from k have "k \<in> set ?p" unfolding fo(2) by simp
  from nth_pos_of[OF this] show a: "?p ! pos_of k ?p = k" and b: "pos_of k ?p < n"
    unfolding fo(3) by simp_all
  show "k \<in> set A \<longleftrightarrow> pos_of k ?p < length A"
  proof
    assume "k \<in> set A"
    then obtain i where i: "i < length A" "A ! i = k" unfolding in_set_conv_nth by blast
    then have "?p ! i = k" using fo(5) by simp
    moreover have "i < length ?p" using i(1) unfolding front_order_def by simp
    ultimately have "pos_of k ?p = i" using pos_of_nth[OF fo(1), of i] by simp
    with i(1) show "pos_of k ?p < length A" by simp
  next
    assume "pos_of k ?p < length A"
    then have "?p ! pos_of k ?p = A ! pos_of k ?p" "A ! pos_of k ?p \<in> set A"
      using fo(5) by simp_all
    with a show "k \<in> set A" by simp
  qed
qed

lemma gather_nth: "i < length p \<Longrightarrow> gather p idx ! i = idx ! (p ! i)"
  and gather_length: "length (gather p idx) = length p"
  unfolding gather_def by simp_all

lemma permute_back_entry:
  assumes d: "distinct p" and s: "set p = {0..<n}"
  shows "entry (permute_axes res (map (\<lambda>v. pos_of v p) [0..<n])) idx = entry res (gather p idx)"
proof -
  note io = inverse_order_props[OF d s]
  have len: "length p = n" using d s by (metis card_atLeastLessThan diff_zero distinct_card)
  have "map (\<lambda>a. idx ! pos_of a (map (\<lambda>v. pos_of v p) [0..<n])) [0..<n] = gather p idx"
    unfolding gather_def len using io(6) by simp
  then show ?thesis unfolding permute_axes_def by simp
qed

lemma permute_entry_gather:
  assumes d: "distinct p" and s: "set p = {0..<n}" and l: "length idx = n"
  shows "entry (permute_axes t p) (gather p idx) = entry t idx"
proof -
  have len: "length p = n" using d s by (metis card_atLeastLessThan diff_zero distinct_card)
  have "map (\<lambda>a. gather p idx ! pos_of a p) [0..<n] = idx"
  proof (rule nth_equalityI)
    show "length (map (\<lambda>a. gather p idx ! pos_of a p) [0..<n]) = length idx" using l by simp
  next
    fix a assume "a < length (map (\<lambda>a. gather p idx ! pos_of a p) [0..<n])"
    then have a: "a < n" by simp
    then have "a \<in> set p" unfolding s by simp
    from nth_pos_of[OF this] have "p ! pos_of a p = a" "pos_of a p < length p" by simp_all
    then show "map (\<lambda>a. gather p idx ! pos_of a p) [0..<n] ! a = idx ! a"
      using a by (simp add: gather_nth)
  qed
  then show ?thesis unfolding permute_axes_def len by simp
qed

lemma bcast_index_id:
  assumes "length idx = length sh" and "\<forall>i<length sh. idx ! i < sh ! i"
  shows "bcast_index sh idx = idx"
proof -
  have "map2 (\<lambda>s i. if s = 1 then 0 else i) sh idx = idx"
  proof (rule nth_equalityI)
    show "length (map2 (\<lambda>s i. if s = 1 then 0 else i) sh idx) = length idx" using assms(1) by simp
  next
    fix i assume "i < length (map2 (\<lambda>s i. if s = 1 then 0 else i) sh idx)"
    then have i: "i < length sh" "i < length idx" by simp_all
    with assms(2) have "idx ! i < sh ! i" by simp
    then show "map2 (\<lambda>s i. if s = 1 then 0 else i) sh idx ! i = idx ! i" using i by auto
  qed
  then show ?thesis unfolding bcast_index_def using assms(1) by simp
qed

lemma frame_facts:
  assumes sr: "same_rank ss" and va: "valid_axes (ndim (hd ss)) axes"
  defines "p \<equiv> front_order (ndim (hd ss)) (listed_axes (ndim (hd ss)) axes)"
  shows "distinct p" and "set p = {0..<ndim (hd ss)}" and "length p = ndim (hd ss)"
    and "i < length axes \<Longrightarrow> listed (ndim (hd ss)) axes (p ! i) \<and> p ! i < ndim (hd ss)"
    and "length axes \<le> i \<Longrightarrow> i < ndim (hd ss) \<Longrightarrow> \<not> listed (ndim (hd ss)) axes (p ! i) \<and> p ! i < ndim (hd ss)"
    and "k < ndim (hd ss) \<Longrightarrow> listed (ndim (hd ss)) axes k \<Longrightarrow> \<exists>i<length axes. p ! i = k"
    and "j < length ss \<Longrightarrow> i < ndim (hd ss) \<Longrightarrow> shape (moved ss axes ! j) ! i = shape (ss ! j) ! (p ! i)"
    and "j \<le> length ss \<Longrightarrow> i < length axes \<Longrightarrow> extent_sum (take j (moved ss axes)) i = block_offset ss axes j (p ! i)"
proof -
  let ?n = "ndim (hd ss)"
  let ?A = "listed_axes ?n axes"
  note la = listed_axes_props[OF va]
  note fo = front_order_perm[OF la(2,3)]
  note ft = front_order_tail[OF la(2,3)]
  note mp = moved_props[OF sr va]
  have li: "listed ?n axes a \<longleftrightarrow> a \<in> set ?A" for a unfolding listed_def by (rule la(5))
  show "distinct p" "set p = {0..<?n}" "length p = ?n" unfolding p_def by (rule fo(1) fo(2) fo(3))+
  show f4: "listed ?n axes (p ! i) \<and> p ! i < ?n" if "i < length axes" for i
  proof -
    from that have i: "i < length ?A" unfolding length_listed_axes .
    then have "p ! i = ?A ! i" unfolding p_def by (rule fo(5))
    moreover have "?A ! i \<in> set ?A" using i by simp
    ultimately show ?thesis using la(3) unfolding li by simp
  qed
  show "\<not> listed ?n axes (p ! i) \<and> p ! i < ?n" if "length axes \<le> i" "i < ?n" for i
    using ft(1)[OF that(2), unfolded length_listed_axes, OF that(1)] unfolding li p_def .
  show "\<exists>i<length axes. p ! i = k" if "k < ?n" "listed ?n axes k" for k
  proof -
    from that(2) have "k \<in> set ?A" unfolding li .
    then obtain i where i: "i < length ?A" "?A ! i = k" unfolding in_set_conv_nth by blast
    then have "p ! i = k" unfolding p_def using fo(5) by simp
    with i(1) show ?thesis unfolding length_listed_axes by blast
  qed
  show "shape (moved ss axes ! j) ! i = shape (ss ! j) ! (p ! i)" if "j < length ss" "i < ?n" for j i
    unfolding mp(4)[OF that(1)] permute_axes_shape p_def using that(2) fo(3) by simp
  show "extent_sum (take j (moved ss axes)) i = block_offset ss axes j (p ! i)"
    if "j \<le> length ss" "i < length axes" for j i
  proof -
    have "i < length p" using that(2) mp(6) fo(3) unfolding p_def by simp
    then have "extent_sum (map (\<lambda>s. permute_axes s p) (take j ss)) i
               = sum_list (map (\<lambda>s. shape s ! (p ! i)) (take j ss))"
      by (rule extent_sum_moved)
    moreover have "take j (moved ss axes) = map (\<lambda>s. permute_axes s p) (take j ss)"
      unfolding moved_def p_def by (simp add: take_map)
    ultimately show ?thesis unfolding block_offset_def using f4[OF that(2)] by simp
  qed
qed

lemma in_blk_iff_in_block:
  assumes sr: "same_rank ss" and va: "valid_axes (ndim (hd ss)) axes" and j: "j < length ss"
  shows "in_blk (replicate (length axes) 0) (moved ss axes) j
           (gather (front_order (ndim (hd ss)) (listed_axes (ndim (hd ss)) axes)) idx)
         \<longleftrightarrow> in_block ss axes j idx"
proof -
  let ?n = "ndim (hd ss)"
  let ?p = "front_order ?n (listed_axes ?n axes)"
  let ?nr = "length axes"
  note ff = frame_facts[OF sr va]
  note mp = moved_props[OF sr va]
  have jl: "j \<le> length ss" using j by simp
  have A: "in_blk (replicate ?nr 0) (moved ss axes) j (gather ?p idx)
           \<longleftrightarrow> (\<forall>i<?nr. block_offset ss axes j (?p ! i) \<le> idx ! (?p ! i)
                        \<and> idx ! (?p ! i) < block_offset ss axes j (?p ! i) + shape (ss ! j) ! (?p ! i))"
  proof -
    have "gather ?p idx ! i = idx ! (?p ! i)" "shape (moved ss axes ! j) ! i = shape (ss ! j) ! (?p ! i)"
      "extent_sum (take j (moved ss axes)) i = block_offset ss axes j (?p ! i)"
      if "i < ?nr" for i
      using that mp(6) ff(3) ff(7)[OF j] ff(8)[OF jl that] by (simp_all add: gather_nth)
    then show ?thesis unfolding in_blk_def by simp
  qed
  have B: "in_block ss axes j idx
           \<longleftrightarrow> (\<forall>k<?n. listed ?n axes k \<longrightarrow> block_offset ss axes j k \<le> idx ! k
                        \<and> idx ! k < block_offset ss axes j k + shape (ss ! j) ! k)"
    unfolding in_block_def list_all_iff by (simp only: set_upt Ball_def atLeastLessThan_iff le0 simp_thms)
  show ?thesis unfolding A B
  proof
    assume L: "\<forall>i<?nr. block_offset ss axes j (?p ! i) \<le> idx ! (?p ! i)
                        \<and> idx ! (?p ! i) < block_offset ss axes j (?p ! i) + shape (ss ! j) ! (?p ! i)"
    show "\<forall>k<?n. listed ?n axes k \<longrightarrow> block_offset ss axes j k \<le> idx ! k
                        \<and> idx ! k < block_offset ss axes j k + shape (ss ! j) ! k"
    proof (intro allI impI)
      fix k assume "k < ?n" "listed ?n axes k"
      from ff(6)[OF this] obtain i where "i < ?nr" "?p ! i = k" by blast
      with L show "block_offset ss axes j k \<le> idx ! k
                        \<and> idx ! k < block_offset ss axes j k + shape (ss ! j) ! k" by blast
    qed
  next
    assume R: "\<forall>k<?n. listed ?n axes k \<longrightarrow> block_offset ss axes j k \<le> idx ! k
                        \<and> idx ! k < block_offset ss axes j k + shape (ss ! j) ! k"
    show "\<forall>i<?nr. block_offset ss axes j (?p ! i) \<le> idx ! (?p ! i)
                        \<and> idx ! (?p ! i) < block_offset ss axes j (?p ! i) + shape (ss ! j) ! (?p ! i)"
    proof (intro allI impI)
      fix i assume "i < ?nr"
      from ff(4)[OF this] R
      show "block_offset ss axes j (?p ! i) \<le> idx ! (?p ! i)
                        \<and> idx ! (?p ! i) < block_offset ss axes j (?p ! i) + shape (ss ! j) ! (?p ! i)"
        by blast
    qed
  qed
qed

lemma result_shape:
  assumes sr: "same_rank ss" and va: "valid_axes (ndim (hd ss)) axes"
    and s: "shape res' = shape (allocated (moved ss axes) (length axes))"
    and k: "k < ndim (hd ss)"
  shows "shape (permute_axes res'
                  (map (\<lambda>v. pos_of v (front_order (ndim (hd ss)) (listed_axes (ndim (hd ss)) axes)))
                       [0..<ndim (hd ss)])) ! k
         = (if listed (ndim (hd ss)) axes k then sum_list (map (\<lambda>s. shape s ! k) ss)
            else shape (hd ss) ! k)"
proof -
  let ?n = "ndim (hd ss)"
  let ?A = "listed_axes ?n axes"
  let ?p = "front_order ?n ?A"
  let ?nr = "length axes"
  let ?i = "pos_of k ?p"
  note la = listed_axes_props[OF va]
  note pf = pos_in_front[OF la(2,3) k]
  note ff = frame_facts[OF sr va]
  note mp = moved_props[OF sr va]
  note al = allocated_shape[OF mp(1,2,6)]
  have li: "listed ?n axes k \<longleftrightarrow> ?i < ?nr"
    unfolding listed_def la(5) pf(3) length_listed_axes ..
  have "shape (permute_axes res' (map (\<lambda>v. pos_of v ?p) [0..<?n])) ! k
        = shape (allocated (moved ss axes) ?nr) ! ?i"
    unfolding permute_axes_shape s using k by simp
  also have "\<dots> = (if listed ?n axes k then sum_list (map (\<lambda>s. shape s ! k) ss)
                     else shape (hd ss) ! k)"
  proof (cases "listed ?n axes k")
    case True
    then have i: "?i < ?nr" unfolding li .
    have "shape (allocated (moved ss axes) ?nr) ! ?i = extent_sum (moved ss axes) ?i"
      using al(2) i by simp
    also have "\<dots> = extent_sum (take (length ss) (moved ss axes)) ?i"
      using mp(3) by simp
    also have "\<dots> = block_offset ss axes (length ss) (?p ! ?i)"
      by (rule ff(8)[OF le_refl i])
    also have "\<dots> = sum_list (map (\<lambda>s. shape s ! k) ss)"
      unfolding pf(1) block_offset_def using True by simp
    finally show ?thesis using True by simp
  next
    case False
    then have i: "?nr \<le> ?i" unfolding li by simp
    have "shape (allocated (moved ss axes) ?nr) ! ?i = shape (hd (moved ss axes)) ! ?i"
      using al(3) i pf(2) by simp
    also have "\<dots> = shape (hd ss) ! (?p ! ?i)"
      unfolding mp(5) permute_axes_shape using pf(2) ff(3) by simp
    finally show ?thesis using False unfolding pf(1) by simp
  qed
  finally show ?thesis .
qed

lemma index_ok_nth:
  assumes "index_ok sh idx"
  shows "length idx = length sh" and "\<forall>k<length sh. idx ! k < sh ! k"
  using assms unfolding index_ok_def by (simp_all add: list_all2_conv_all_nth)

lemma outside_entry:
  fixes ss :: "'a::monoid_add tensor list"
  assumes sr: "same_rank ss" and va: "valid_axes (ndim (hd ss)) axes"
    and r: "place_blocks (allocated (moved ss axes) (length axes)) (replicate (length axes) 0)
              (moved ss axes) = Inr res'"
    and l: "length idx = ndim (hd ss)"
    and o: "\<forall>j<length ss. \<not> in_block ss axes j idx"
  shows "entry res' (gather (front_order (ndim (hd ss)) (listed_axes (ndim (hd ss)) axes)) idx) = 0"
proof -
  let ?n = "ndim (hd ss)"
  let ?p = "front_order ?n (listed_axes ?n axes)"
  let ?nr = "length axes"
  note ff = frame_facts[OF sr va]
  note mp = moved_props[OF sr va]
  have lr: "length (replicate ?nr (0::nat)) = ?nr" by simp
  have lt: "length (gather ?p idx) = ?n" unfolding gather_length ff(3) ..
  have "\<forall>j<length (moved ss axes). \<not> in_blk (replicate ?nr 0) (moved ss axes) j (gather ?p idx)"
    unfolding mp(3) using o in_blk_iff_in_block[OF sr va] by simp
  from place_blocks_outside[OF lr mp(7,6) mp(2) lt r this]
  show ?thesis by (simp add: allocated_entry)
qed

lemma inside_entry:
  fixes ss :: "'a::monoid_add tensor list"
  assumes sr: "same_rank ss" and va: "valid_axes (ndim (hd ss)) axes"
    and r: "place_blocks (allocated (moved ss axes) (length axes)) (replicate (length axes) 0)
              (moved ss axes) = Inr res'"
    and j: "j < length ss" and ok: "index_ok (shape (ss ! j)) idx"
  shows "entry res' (gather (front_order (ndim (hd ss)) (listed_axes (ndim (hd ss)) axes))
                       (map2 (+) idx (map (block_offset ss axes j) [0..<ndim (hd ss)])))
         = entry (ss ! j) idx"
proof -
  let ?n = "ndim (hd ss)"
  let ?p = "front_order ?n (listed_axes ?n axes)"
  let ?nr = "length axes"
  let ?ts = "moved ss axes"
  let ?off = "block_offset ss axes j"
  let ?idx2 = "map2 (+) idx (map ?off [0..<?n])"
  let ?ti = "gather ?p ?idx2"
  note ff = frame_facts[OF sr va]
  note mp = moved_props[OF sr va]
  note sa = same_rank_all[OF sr]
  have nj: "length (shape (ss ! j)) = ?n" using sa(2) j by (simp add: ndim_def[symmetric])
  note io = index_ok_nth[OF ok, unfolded nj]
  have i2: "?idx2 ! k = idx ! k + ?off k" if "k < ?n" for k using that io(1) by simp
  have pk: "?p ! i < ?n" if "i < ?n" for i
  proof (cases "i < ?nr")
    case True from ff(4)[OF this] show ?thesis by simp
  next
    case False with ff(5)[OF _ that] show ?thesis by simp
  qed
  have ti: "?ti ! i = idx ! (?p ! i) + ?off (?p ! i)" if "i < ?n" for i
    using that ff(3) i2[OF pk[OF that]] by (simp add: gather_nth)
  have lr: "length (replicate ?nr (0::nat)) = ?nr" by simp
  have lt: "length ?ti = ?n" unfolding gather_length ff(3) ..
  have jt: "j < length ?ts" using j mp(3) by simp
  have "in_block ss axes j ?idx2"
    unfolding in_block_def list_all_iff using i2 io(2) by simp
  then have ib: "in_blk (replicate ?nr 0) ?ts j ?ti"
    unfolding in_blk_iff_in_block[OF sr va j] .
  have rel: "map2 (-) (take ?nr ?ti) (blk_start (replicate ?nr 0) ?ts j) @ drop ?nr ?ti = gather ?p idx"
  proof (rule nth_equalityI)
    show "length (map2 (-) (take ?nr ?ti) (blk_start (replicate ?nr 0) ?ts j) @ drop ?nr ?ti)
          = length (gather ?p idx)"
      using mp(6) by (simp add: gather_length ff(3) blk_start_def)
  next
    fix i assume "i < length (map2 (-) (take ?nr ?ti) (blk_start (replicate ?nr 0) ?ts j) @ drop ?nr ?ti)"
    then have i: "i < ?n" using mp(6) by (simp add: gather_length ff(3) blk_start_def)
    have g: "gather ?p idx ! i = idx ! (?p ! i)" using i ff(3) by (simp add: gather_nth)
    show "(map2 (-) (take ?nr ?ti) (blk_start (replicate ?nr 0) ?ts j) @ drop ?nr ?ti) ! i
          = gather ?p idx ! i"
    proof (cases "i < ?nr")
      case True
      have "(map2 (-) (take ?nr ?ti) (blk_start (replicate ?nr 0) ?ts j) @ drop ?nr ?ti) ! i
            = ?ti ! i - extent_sum (take j ?ts) i"
        using True mp(6) by (simp add: gather_length ff(3) blk_start_def nth_append)
      also have "\<dots> = idx ! (?p ! i)"
        unfolding ti[OF i] ff(8)[OF less_imp_le[OF j] True] by simp
      finally show ?thesis unfolding g .
    next
      case False
      then have ge: "?nr \<le> i" by simp
      have "(map2 (-) (take ?nr ?ti) (blk_start (replicate ?nr 0) ?ts j) @ drop ?nr ?ti) ! i
            = ?ti ! i"
        using False mp(6) by (simp add: gather_length ff(3) blk_start_def nth_append)
      also have "\<dots> = idx ! (?p ! i)"
        unfolding ti[OF i] block_offset_def using ff(5)[OF ge i] by simp
      finally show ?thesis unfolding g .
    qed
  qed
  have tj: "?ts ! j = permute_axes (ss ! j) ?p" by (rule mp(4)[OF j])
  have bc: "bcast_index (shape (?ts ! j)) (gather ?p idx) = gather ?p idx"
  proof (rule bcast_index_id)
    show "length (gather ?p idx) = length (shape (?ts ! j))"
      unfolding tj permute_axes_shape gather_length by simp
    show "\<forall>i<length (shape (?ts ! j)). gather ?p idx ! i < shape (?ts ! j) ! i"
    proof (intro allI impI)
      fix i assume "i < length (shape (?ts ! j))"
      then have i: "i < ?n" unfolding tj permute_axes_shape using ff(3) by simp
      have "gather ?p idx ! i = idx ! (?p ! i)" using i ff(3) by (simp add: gather_nth)
      moreover have "shape (?ts ! j) ! i = shape (ss ! j) ! (?p ! i)" by (rule ff(7)[OF j i])
      ultimately show "gather ?p idx ! i < shape (?ts ! j) ! i" using io(2) pk[OF i] by simp
    qed
  qed
  from place_blocks_inside[OF lr mp(7,6) mp(2) lt r jt ib]
  have "entry res' ?ti = entry (?ts ! j) (gather ?p idx)"
    unfolding rel bc by (simp add: allocated_entry)
  also have "\<dots> = entry (ss ! j) idx"
    unfolding tj by (rule permute_entry_gather[OF ff(1,2) io(1)])
  finally show ?thesis .
qed

text \<open>
  Claim C5. For a non-empty list of summands of one rank whose extents agree on every axis
  that is not listed, and a non-empty list of distinct axes (negative ones counted from the
  end), \<open>block_diag\<close> returns a tensor of the same rank whose extent on a listed axis is the
  sum of the summands' extents and on any other axis the common extent; the entry of summand
  \<open>j\<close> at \<open>idx\<close> is found at \<open>idx\<close> shifted by the summed extents of the summands before
  it on the listed axes; and every entry outside all these blocks is 0. For the two arrays of
  the docstring and the axes \<open>(1, -1)\<close> the result is the \<open>(2, 4, 4)\<close> array printed there.
\<close>

theorem block_diag_blocks:
  fixes summands :: "'a::monoid_add tensor list"
  assumes "same_rank summands" and "valid_axes (ndim (hd summands)) axes"
    and "agree_elsewhere summands axes"
  shows "\<exists>R. block_diag summands axes = Inr R \<and> ndim R = ndim (hd summands)
           \<and> (\<forall>k<ndim (hd summands).
                 shape R ! k = (if listed (ndim (hd summands)) axes k
                                then sum_list (map (\<lambda>s. shape s ! k) summands)
                                else shape (hd summands) ! k))
           \<and> (\<forall>j idx. j < length summands \<and> index_ok (shape (summands ! j)) idx \<longrightarrow>
                 entry R (map2 (+) idx (map (block_offset summands axes j) [0..<ndim (hd summands)]))
                 = entry (summands ! j) idx)
           \<and> (\<forall>idx. index_ok (shape R) idx \<and> (\<forall>j<length summands. \<not> in_block summands axes j idx)
                 \<longrightarrow> entry R idx = 0)"
proof -
  let ?n = "ndim (hd summands)"
  let ?p = "front_order ?n (listed_axes ?n axes)"
  let ?q = "map (\<lambda>v. pos_of v ?p) [0..<?n]"
  note ff = frame_facts[OF assms(1,2)]
  from block_diag_outcome(2)[OF assms(1,2) agree_not_clash[OF assms(3)]]
  obtain res' where r: "place_blocks (allocated (moved summands axes) (length axes))
                          (replicate (length axes) 0) (moved summands axes) = Inr res'"
    and s: "shape res' = shape (allocated (moved summands axes) (length axes))"
    and b: "block_diag summands axes = Inr (permute_axes res' ?q)" by blast
  let ?R = "permute_axes res' ?q"
  have nd: "ndim ?R = ?n" unfolding permute_axes_ndim by simp
  have sh: "\<forall>k<?n. shape ?R ! k = (if listed ?n axes k
                                then sum_list (map (\<lambda>s. shape s ! k) summands)
                                else shape (hd summands) ! k)"
    using result_shape[OF assms(1,2) s] by blast
  have en: "entry ?R idx = entry res' (gather ?p idx)" for idx
    by (rule permute_back_entry[OF ff(1,2)])
  have ins: "\<forall>j idx. j < length summands \<and> index_ok (shape (summands ! j)) idx \<longrightarrow>
                 entry ?R (map2 (+) idx (map (block_offset summands axes j) [0..<?n]))
                 = entry (summands ! j) idx"
    unfolding en using inside_entry[OF assms(1,2) r] by blast
  have out: "\<forall>idx. index_ok (shape ?R) idx \<and> (\<forall>j<length summands. \<not> in_block summands axes j idx)
                 \<longrightarrow> entry ?R idx = 0"
  proof (intro allI impI)
    fix idx assume a: "index_ok (shape ?R) idx \<and> (\<forall>j<length summands. \<not> in_block summands axes j idx)"
    then have "length idx = ?n" using index_ok_nth(1)[of "shape ?R" idx] nd by (simp add: ndim_def)
    from outside_entry[OF assms(1,2) r this] a show "entry ?R idx = 0" unfolding en by blast
  qed
  from b nd sh ins out show ?thesis by blast
qed

lemma block_diag_docstring:
  "map_sum id shape (block_diag [doc_a, doc_b] [1, - 1]) = Inr [2, 4, 4]"
  "map_sum id contents (block_diag [doc_a, doc_b] [1, - 1])
   = Inr [0, 1, 0, 0,  2, 3, 0, 0,  0, 0, 8, 9,  0, 0, 10, 11,
          4, 5, 0, 0,  6, 7, 0, 0,  0, 0, 12, 13,  0, 0, 14, 15]"
  by code_simp+

lemma doc_facts:
  "same_rank [doc_a, doc_b]" "valid_axes (ndim (hd [doc_a, doc_b])) [1, - 1]"
  "agree_elsewhere [doc_a, doc_b] [1, - 1]"
  by (simp_all add: same_rank_def valid_axes_def agree_elsewhere_def listed_def resolve_axes_def
      ndim_def doc_a_def doc_b_def arange_def upt_rec)

theorem block_diag_blocks_witness:
  "same_rank [doc_a, doc_b] \<and> valid_axes (ndim (hd [doc_a, doc_b])) [1, - 1]
   \<and> agree_elsewhere [doc_a, doc_b] [1, - 1]
   \<and> (\<exists>R. block_diag [doc_a, doc_b] [1, - 1] = Inr R \<and> shape R = [2, 4, 4]
         \<and> entry R [0, 2, 3] = 9 \<and> entry R [1, 1, 0] = 6 \<and> entry R [0, 0, 2] = 0
         \<and> contents R = [0, 1, 0, 0,  2, 3, 0, 0,  0, 0, 8, 9,  0, 0, 10, 11,
                          4, 5, 0, 0,  6, 7, 0, 0,  0, 0, 12, 13,  0, 0, 14, 15])"
proof -
  from block_diag_blocks[OF doc_facts]
  obtain R where R: "block_diag [doc_a, doc_b] [1, - 1] = Inr R"
    and ins: "\<forall>j idx. j < length [doc_a, doc_b] \<and> index_ok (shape ([doc_a, doc_b] ! j)) idx \<longrightarrow>
                 entry R (map2 (+) idx (map (block_offset [doc_a, doc_b] [1, - 1] j)
                                          [0..<ndim (hd [doc_a, doc_b])]))
                 = entry ([doc_a, doc_b] ! j) idx"
    and out: "\<forall>idx. index_ok (shape R) idx
                 \<and> (\<forall>j<length [doc_a, doc_b]. \<not> in_block [doc_a, doc_b] [1, - 1] j idx)
                 \<longrightarrow> entry R idx = 0"
    by blast
  from block_diag_docstring R have sh: "shape R = [2, 4, 4]"
    and co: "contents R = [0, 1, 0, 0,  2, 3, 0, 0,  0, 0, 8, 9,  0, 0, 10, 11,
                          4, 5, 0, 0,  6, 7, 0, 0,  0, 0, 12, 13,  0, 0, 14, 15]" by simp_all
  have off: "map (block_offset [doc_a, doc_b] [1, - 1] 1) [0..<ndim (hd [doc_a, doc_b])] = [0, 2, 2]"
    "map (block_offset [doc_a, doc_b] [1, - 1] 0) [0..<ndim (hd [doc_a, doc_b])] = [0, 0, 0]"
    by (simp_all add: block_offset_def listed_def resolve_axes_def ndim_def doc_a_def doc_b_def
        arange_def upt_rec)
  have e1: "entry R [0, 2, 3] = 9"
    using ins[rule_format, of 1 "[0, 0, 1]"] unfolding off
    by (simp add: index_ok_def doc_b_def arange_def flat_index_def numeral_2_eq_2 numeral_3_eq_3)
  have e2: "entry R [1, 1, 0] = 6"
    using ins[rule_format, of 0 "[1, 1, 0]"] unfolding off
    by (simp add: index_ok_def doc_a_def arange_def flat_index_def numeral_2_eq_2 numeral_3_eq_3)
  have e3: "entry R [0, 0, 2] = 0"
    using out[rule_format, of "[0, 0, 2]"] unfolding sh
    by (simp add: index_ok_def in_block_def block_offset_def listed_def resolve_axes_def ndim_def
        doc_a_def doc_b_def arange_def upt_rec less_Suc_eq numeral_2_eq_2 numeral_3_eq_3)
  from doc_facts R sh e1 e2 e3 co show ?thesis by blast
qed

end
